theory Spec2Isabelle
  imports Main
begin

section \<open>Dynamic partition management (class DynamicPartition)\<close>

subsection \<open>Data model\<close>

text \<open>
  Class \<open>MemoryBlock\<close>: start address, size, allocation flag and owning process id
  (\<open>None\<close> for a free block). Python integers are unbounded, hence \<open>int\<close>.
  The field \<open>size\<close> is written \<open>size_b\<close>, since \<open>size\<close> is a constant of HOL.
\<close>

record memory_block =
  start_addr :: int
  size_b :: int
  allocated :: bool
  process_id :: "int option"

definition MemoryBlock :: "int \<Rightarrow> int \<Rightarrow> bool \<Rightarrow> int option \<Rightarrow> memory_block" where
  "MemoryBlock a n al p = \<lparr>start_addr = a, size_b = n, allocated = al, process_id = p\<rparr>"

text \<open>Class \<open>Process\<close>; the constructor leaves \<open>allocated_block\<close> at \<open>None\<close>.\<close>

record process =
  pid :: int
  memory_size :: int
  allocated_block :: "memory_block option"

definition Process :: "int \<Rightarrow> int \<Rightarrow> process" where
  "Process p n = \<lparr>pid = p, memory_size = n, allocated_block = None\<rparr>"

text \<open>
  Class \<open>DynamicPartition\<close>. Its field \<open>memory_size\<close> is written \<open>total_memory\<close>
  to keep it apart from the field of the same name of \<open>Process\<close>.
\<close>

record dynamic_partition =
  total_memory :: int
  memory_blocks :: "memory_block list"
  processes :: "int \<rightharpoonup> process"

definition DynamicPartition :: "int \<Rightarrow> dynamic_partition" where
  "DynamicPartition n =
     \<lparr>total_memory = n, memory_blocks = [MemoryBlock 0 n False None], processes = Map.empty\<rparr>"

text \<open>
  The methods return a pair of a success flag and a message; the message is modelled by
  the kind of outcome it reports.
\<close>

datatype partition_outcome =
    Allocated             \<comment> \<open>\<open>True\<close>, allocation done\<close>
  | ProcessExists         \<comment> \<open>\<open>False\<close>, the pid is already in \<open>processes\<close>\<close>
  | CannotAllocate        \<comment> \<open>\<open>False\<close>, no suitable free block\<close>
  | Released              \<comment> \<open>\<open>True\<close>, deallocation done\<close>
  | ProcessMissing        \<comment> \<open>\<open>False\<close>, the pid is not in \<open>processes\<close>\<close>
  | NoAllocatedBlock      \<comment> \<open>\<open>False\<close>, the tracked process owns no block\<close>

fun succeeded :: "partition_outcome \<Rightarrow> bool" where
  "succeeded Allocated = True"
| "succeeded Released = True"
| "succeeded _ = False"

subsection \<open>Choosing a free block\<close>

text \<open>
  \<open>free_blocks\<close> is the sublist of the free blocks of \<open>memory_blocks\<close>. The source finds
  the position of a chosen block again with \<open>self.memory_blocks.index(block)\<close>, which
  compares by object identity (the class defines no \<open>__eq__\<close>) and every object occurs
  once in the list; the model therefore carries each block's position along with it.
\<close>

definition free_blocks :: "memory_block list \<Rightarrow> (nat \<times> memory_block) list" where
  "free_blocks bs = filter (\<lambda>(i, b). \<not> allocated b) (enumerate 0 bs)"

text \<open>The \<open>first_fit\<close> loop: stop at the first free block that is large enough.\<close>

fun first_fit :: "int \<Rightarrow> (nat \<times> memory_block) list \<Rightarrow> (nat \<times> memory_block) option" where
  "first_fit req [] = None"
| "first_fit req ((i, b) # rest) =
     (if size_b b \<ge> req then Some (i, b) else first_fit req rest)"

text \<open>
  The \<open>best_fit\<close> loop. \<open>min_size_diff\<close> starts at \<open>float('inf')\<close>, modelled by
  \<open>None\<close>; every integer is below it.
\<close>

fun below_min :: "int \<Rightarrow> int option \<Rightarrow> bool" where
  "below_min d None = True"
| "below_min d (Some m) = (d < m)"

fun best_fit ::
  "int \<Rightarrow> (nat \<times> memory_block) list \<Rightarrow> int option \<Rightarrow> (nat \<times> memory_block) option
     \<Rightarrow> (nat \<times> memory_block) option" where
  "best_fit req [] min_size_diff suitable = suitable"
| "best_fit req ((i, b) # rest) min_size_diff suitable =
     (if size_b b \<ge> req \<and> below_min (size_b b - req) min_size_diff
      then best_fit req rest (Some (size_b b - req)) (Some (i, b))
      else best_fit req rest min_size_diff suitable)"

text \<open>The \<open>worst_fit\<close> loop; \<open>max_size_diff\<close> starts at \<open>-1\<close>.\<close>

fun worst_fit ::
  "int \<Rightarrow> (nat \<times> memory_block) list \<Rightarrow> int \<Rightarrow> (nat \<times> memory_block) option
     \<Rightarrow> (nat \<times> memory_block) option" where
  "worst_fit req [] max_size_diff suitable = suitable"
| "worst_fit req ((i, b) # rest) max_size_diff suitable =
     (if size_b b \<ge> req \<and> size_b b - req > max_size_diff
      then worst_fit req rest (size_b b - req) (Some (i, b))
      else worst_fit req rest max_size_diff suitable)"

text \<open>
  The \<open>if\<close>/\<open>elif\<close> chain over the algorithm name; any other name selects nothing.
  The result is the pair \<open>(suitable_index, suitable_block)\<close>.
\<close>

definition find_suitable ::
  "string \<Rightarrow> int \<Rightarrow> memory_block list \<Rightarrow> (nat \<times> memory_block) option" where
  "find_suitable algorithm req bs =
     (if algorithm = ''first_fit'' then first_fit req (free_blocks bs)
      else if algorithm = ''best_fit'' then best_fit req (free_blocks bs) None None
      else if algorithm = ''worst_fit'' then worst_fit req (free_blocks bs) (- 1) None
      else None)"

subsection \<open>allocate\<close>

text \<open>\<open>list.pop(i)\<close> and \<open>list.insert(i, x)\<close> for an index within the list.\<close>

definition pop_at :: "nat \<Rightarrow> 'a list \<Rightarrow> 'a list" where
  "pop_at i xs = take i xs @ drop (Suc i) xs"

definition insert_at :: "nat \<Rightarrow> 'a \<Rightarrow> 'a list \<Rightarrow> 'a list" where
  "insert_at i x xs = take i xs @ x # drop i xs"

definition allocate ::
  "process \<Rightarrow> string \<Rightarrow> dynamic_partition \<Rightarrow> partition_outcome \<times> dynamic_partition" where
  "allocate p algorithm s =
     (if processes s (pid p) \<noteq> None then (ProcessExists, s)
      else case find_suitable algorithm (memory_size p) (memory_blocks s) of
        None \<Rightarrow> (CannotAllocate, s)
      | Some (suitable_index, suitable_block) \<Rightarrow>
          let start = start_addr suitable_block;
              original_size = size_b suitable_block;
              allocated_blk = MemoryBlock start (memory_size p) True (Some (pid p));
              p' = p\<lparr>allocated_block := Some allocated_blk\<rparr>;
              bs1 = pop_at suitable_index (memory_blocks s);
              bs2 = (if original_size > memory_size p
                     then insert_at suitable_index
                            (MemoryBlock (start + memory_size p)
                               (original_size - memory_size p) False None) bs1
                     else bs1);
              bs3 = insert_at suitable_index allocated_blk bs2
          in (Allocated, s\<lparr>memory_blocks := bs3, processes := (processes s)(pid p \<mapsto> p')\<rparr>))"

subsection \<open>deallocate and the merging pass\<close>

text \<open>
  \<open>_merge_adjacent_blocks\<close>: the \<open>while\<close> loop over the index \<open>i\<close>. Merging adds the
  next block's size to the current block (in place) and pops the next block; the index
  stays. \<open>len(self.memory_blocks) - 1\<close> is \<open>-1\<close> on an empty list, where the loop does
  not run either.
\<close>

function merge_loop :: "nat \<Rightarrow> memory_block list \<Rightarrow> memory_block list" where
  "merge_loop i bs =
     (if int i < int (length bs) - 1 then
        let current_block = bs ! i; next_block = bs ! (i + 1) in
        if \<not> allocated current_block \<and> \<not> allocated next_block
        then merge_loop i
               (pop_at (i + 1)
                  (bs[i := current_block\<lparr>size_b := size_b current_block + size_b next_block\<rparr>]))
        else merge_loop (i + 1) bs
      else bs)"
  by pat_completeness auto
termination
  by (relation "measure (\<lambda>(i, bs). length bs - i)") (auto simp: pop_at_def)

declare merge_loop.simps [simp del]

definition merge_adjacent_blocks :: "memory_block list \<Rightarrow> memory_block list" where
  "merge_adjacent_blocks bs = merge_loop 0 bs"

text \<open>The search loop of \<open>deallocate\<close>: the first allocated block owned by \<open>p\<close>.\<close>

fun find_owned :: "int \<Rightarrow> (nat \<times> memory_block) list \<Rightarrow> (nat \<times> memory_block) option" where
  "find_owned p [] = None"
| "find_owned p ((i, b) # rest) =
     (if allocated b \<and> process_id b = Some p then Some (i, b) else find_owned p rest)"

definition deallocate ::
  "int \<Rightarrow> dynamic_partition \<Rightarrow> partition_outcome \<times> dynamic_partition" where
  "deallocate p s =
     (if processes s p = None then (ProcessMissing, s)
      else case find_owned p (enumerate 0 (memory_blocks s)) of
        None \<Rightarrow> (NoAllocatedBlock, s)
      | Some (block_index, allocated_blk) \<Rightarrow>
          let free_block = MemoryBlock (start_addr allocated_blk) (size_b allocated_blk) False None;
              bs = (memory_blocks s)[block_index := free_block]
          in (Released, s\<lparr>memory_blocks := merge_adjacent_blocks bs,
                          processes := (processes s)(p := None)\<rparr>))"

subsection \<open>Sequences of calls\<close>

text \<open>
  A caller builds \<open>Process(pid, memory_size)\<close> and calls \<open>allocate\<close>, or calls
  \<open>deallocate\<close> with a pid. The reachable states are the results of running a list of
  such calls on a freshly constructed engine.
\<close>

datatype partition_call = Allocate int int string | Deallocate int

fun partition_step :: "dynamic_partition \<Rightarrow> partition_call \<Rightarrow> dynamic_partition" where
  "partition_step s (Allocate p n algorithm) = snd (allocate (Process p n) algorithm s)"
| "partition_step s (Deallocate p) = snd (deallocate p s)"

definition run_partition :: "partition_call list \<Rightarrow> dynamic_partition \<Rightarrow> dynamic_partition" where
  "run_partition calls s = foldl partition_step s calls"

section \<open>Demand paging with FIFO replacement (class DynamicPaging)\<close>

subsection \<open>Data model\<close>

text \<open>
  Class \<open>Page\<close>. \<open>frame_no\<close> is \<open>None\<close> or an index into the frame table.
\<close>

record page =
  page_no :: int
  exists :: bool
  frame_no :: "nat option"
  modified :: bool
  disk_pos :: string

definition Page :: "int \<Rightarrow> bool \<Rightarrow> nat option \<Rightarrow> bool \<Rightarrow> string \<Rightarrow> page" where
  "Page n e f m d = \<lparr>page_no = n, exists = e, frame_no = f, modified = m, disk_pos = d\<rparr>"

text \<open>The dictionary stored in \<open>current_job\<close>, with its keys \<open>id\<close> and \<open>size\<close> renamed.\<close>

record job =
  job_id :: string
  job_size :: int
  pages_count :: int
  allocated_frames_count :: int

text \<open>
  Class \<open>DynamicPaging\<close>. Its field \<open>memory_size\<close> is written \<open>paging_memory\<close>.
  \<open>frames\<close> holds \<open>None\<close> or the page number mapped into each frame; \<open>page_table\<close> is the
  dictionary from page numbers to pages.
\<close>

record dynamic_paging =
  paging_memory :: int
  page_size :: int
  max_job_size :: int
  total_frames :: int
  frames :: "int option list"
  current_job :: "job option"
  page_table :: "int \<rightharpoonup> page"
  allocated_frames :: "nat list"
  frame_queue :: "nat list"

text \<open>The exceptions the Python code can raise inside the engine.\<close>

datatype py_error = ZeroDivisionError | IndexError | KeyError | TypeError

text \<open>
  The constructor takes sizes in KB. \<open>memory_size // page_size\<close> raises
  \<open>ZeroDivisionError\<close> for a zero page size; \<open>[None] * n\<close> is empty for negative \<open>n\<close>.
\<close>

definition DynamicPaging :: "int \<Rightarrow> int \<Rightarrow> int \<Rightarrow> py_error + dynamic_paging" where
  "DynamicPaging memory_sz page_sz max_job_sz =
     (if page_sz * 1024 = 0 then Inl ZeroDivisionError
      else Inr \<lparr>paging_memory = memory_sz * 1024,
                page_size = page_sz * 1024,
                max_job_size = max_job_sz * 1024,
                total_frames = (memory_sz * 1024) div (page_sz * 1024),
                frames = replicate (nat ((memory_sz * 1024) div (page_sz * 1024))) None,
                current_job = None,
                page_table = Map.empty,
                allocated_frames = [],
                frame_queue = []\<rparr>)"

subsection \<open>create\_job\<close>

datatype job_outcome =
    JobCreated            \<comment> \<open>\<open>True\<close>\<close>
  | JobTooLarge           \<comment> \<open>\<open>False\<close>, job size above \<open>max_job_size\<close>\<close>
  | InsufficientFrames    \<comment> \<open>\<open>False\<close>, more frames asked for than \<open>total_frames\<close>\<close>
  | OutOfFrames           \<comment> \<open>\<open>False\<close>, fewer empty frames than asked for\<close>
  | JobRaised py_error    \<comment> \<open>an exception leaves the method\<close>

text \<open>
  The loop that fills the page table. The disk position of a page is three random digits;
  the model takes the tags drawn in one call as a function \<open>disk\<close> of the page number.
\<close>

definition new_page_table :: "(int \<Rightarrow> string) \<Rightarrow> int \<Rightarrow> (int \<rightharpoonup> page)" where
  "new_page_table disk n =
     fold (\<lambda>i pt. pt(i \<mapsto> Page i False None False (disk i))) (map int [0..<nat n]) Map.empty"

definition free_frames_of :: "int option list \<Rightarrow> nat list" where
  "free_frames_of fs = map fst (filter (\<lambda>(i, frame). frame = None) (enumerate 0 fs))"

definition create_job ::
  "string \<Rightarrow> int \<Rightarrow> int \<Rightarrow> (int \<Rightarrow> string) \<Rightarrow> dynamic_paging \<Rightarrow> job_outcome \<times> dynamic_paging" where
  "create_job jid job_sz allocated_frames_cnt disk s =
     (if job_sz > max_job_size s then (JobTooLarge, s)
      else if allocated_frames_cnt > total_frames s then (InsufficientFrames, s)
      else if page_size s = 0 then (JobRaised ZeroDivisionError, s)
      else
        let pages_cnt = (job_sz + page_size s - 1) div page_size s;
            s1 = s\<lparr>page_table := new_page_table disk pages_cnt\<rparr>;
            s2 = s1\<lparr>allocated_frames := []\<rparr>;
            free_frames = free_frames_of (frames s2)
        in if int (length free_frames) < allocated_frames_cnt then (OutOfFrames, s2)
           else (JobCreated,
                 s2\<lparr>allocated_frames := take (nat allocated_frames_cnt) free_frames,
                    current_job := Some \<lparr>job_id = jid, job_size = job_sz,
                                         pages_count = pages_cnt,
                                         allocated_frames_count = allocated_frames_cnt\<rparr>,
                    frame_queue := []\<rparr>))"

subsection \<open>access\_memory and the page-fault handler\<close>

text \<open>
  The third component of the result of \<open>access_memory\<close>, and the second of
  \<open>_handle_page_fault\<close>: \<open>None\<close> or one of the messages.
\<close>

datatype info =
    NoInfo                \<comment> \<open>\<open>None\<close>\<close>
  | PageOutOfRange int    \<comment> \<open>the page number is not in the page table\<close>
  | CannotLoadPage        \<comment> \<open>memory full and nothing to replace\<close>
  | QueueEmpty            \<comment> \<open>the FIFO queue is empty\<close>
  | Evicted int           \<comment> \<open>that page was replaced\<close>
  | NoEviction            \<comment> \<open>the frame taken from the queue held no page\<close>

text \<open>
  \<open>_handle_page_fault\<close>. The list comprehension reads \<open>self.frames[frame]\<close> for every
  allocated frame and \<open>self.page_table[replaced_page_no]\<close> for the replaced page; a read
  out of range or of a missing key raises, after \<open>frame_queue.pop(0)\<close> has happened in
  the second case.
\<close>

definition handle_page_fault ::
  "int \<Rightarrow> dynamic_paging \<Rightarrow> (py_error + nat option \<times> info) \<times> dynamic_paging" where
  "handle_page_fault pno s =
     (if \<exists>f\<in>set (allocated_frames s). \<not> f < length (frames s) then (Inl IndexError, s)
      else case filter (\<lambda>f. frames s ! f = None) (allocated_frames s) of
        fno # _ \<Rightarrow>
          (Inr (Some fno, NoInfo),
           s\<lparr>frames := (frames s)[fno := Some pno], frame_queue := frame_queue s @ [fno]\<rparr>)
      | [] \<Rightarrow>
          (case frame_queue s of
             [] \<Rightarrow> (Inr (None, QueueEmpty), s)
           | replaced_frame # queue \<Rightarrow>
               let s1 = s\<lparr>frame_queue := queue\<rparr> in
               if \<not> replaced_frame < length (frames s1) then (Inl IndexError, s1)
               else (case frames s1 ! replaced_frame of
                 Some replaced_page_no \<Rightarrow>
                   (case page_table s1 replaced_page_no of
                      None \<Rightarrow> (Inl KeyError, s1)
                    | Some replaced_page \<Rightarrow>
                        let evicted = replaced_page\<lparr>exists := False, frame_no := None\<rparr> in
                        (Inr (Some replaced_frame, Evicted replaced_page_no),
                         s1\<lparr>page_table := (page_table s1)(replaced_page_no \<mapsto> evicted),
                            frames := (frames s1)[replaced_frame := Some pno],
                            frame_queue := queue @ [replaced_frame]\<rparr>))
               | None \<Rightarrow>
                   (Inr (Some replaced_frame, NoEviction),
                    s1\<lparr>frames := (frames s1)[replaced_frame := Some pno],
                       frame_queue := queue @ [replaced_frame]\<rparr>))))"

text \<open>
  \<open>operation in ["save", "\<dots>"]\<close>: the second string is the one Chinese character for
  "store", here as the three bytes of its UTF-8 encoding.
\<close>

definition is_store :: "string \<Rightarrow> bool" where
  "is_store operation =
     (operation = ''save'' \<or> operation = [char_of (0xE5 :: nat), char_of (0xAD :: nat), char_of (0x98 :: nat)])"

text \<open>
  \<open>access_memory\<close> returns the triple (physical address, page fault, info). The object
  \<open>page\<close> is fetched before the fault handler runs and the handler changes at most its
  fields \<open>exists\<close> and \<open>frame_no\<close>, which are assigned afterwards; so the entry written back
  is \<open>page\<close> with those fields (and \<open>modified\<close>) set. For a resident page the product
  \<open>page.frame_no * self.page_size\<close> raises \<open>TypeError\<close> when \<open>frame_no\<close> is \<open>None\<close>, after
  \<open>modified\<close> has been set.
\<close>

definition access_memory ::
  "int \<Rightarrow> int \<Rightarrow> string \<Rightarrow> dynamic_paging
     \<Rightarrow> (py_error + int option \<times> bool \<times> info) \<times> dynamic_paging" where
  "access_memory pno offset operation s =
     (case page_table s pno of
        None \<Rightarrow> (Inr (None, False, PageOutOfRange pno), s)
      | Some pg \<Rightarrow>
          if \<not> exists pg then
            (case handle_page_fault pno s of
               (Inl e, s1) \<Rightarrow> (Inl e, s1)
             | (Inr (None, replaced), s1) \<Rightarrow> (Inr (None, True, CannotLoadPage), s1)
             | (Inr (Some fno, replaced), s1) \<Rightarrow>
                 let loaded = pg\<lparr>exists := True, frame_no := Some fno,
                                 modified := (if is_store operation then True else modified pg)\<rparr>
                 in (Inr (Some (int fno * page_size s + offset), True, replaced),
                     s1\<lparr>page_table := (page_table s1)(pno \<mapsto> loaded)\<rparr>))
          else
            let written = pg\<lparr>modified := True\<rparr>;
                s1 = (if is_store operation
                      then s\<lparr>page_table := (page_table s)(pno \<mapsto> written)\<rparr>
                      else s)
            in (case frame_no pg of
                  None \<Rightarrow> (Inl TypeError, s1)
                | Some fno \<Rightarrow> (Inr (Some (int fno * page_size s + offset), False, NoInfo), s1)))"

subsection \<open>The caller's guard\<close>

text \<open>
  \<open>MemoryManagementApp._execute_instruction\<close>, with the page number and offset already
  parsed: it refuses the instruction when no job is current or the offset is not below the
  page size, and calls \<open>access_memory\<close> otherwise.
\<close>

datatype instruction_outcome =
    NoCurrentJob
  | OffsetOutOfRange
  | Accessed "py_error + int option \<times> bool \<times> info"

definition execute_instruction ::
  "string \<Rightarrow> int \<Rightarrow> int \<Rightarrow> dynamic_paging \<Rightarrow> instruction_outcome \<times> dynamic_paging" where
  "execute_instruction operation pno offset s =
     (if current_job s = None then (NoCurrentJob, s)
      else if offset \<ge> page_size s then (OffsetOutOfRange, s)
      else case access_memory pno offset operation s of (r, s') \<Rightarrow> (Accessed r, s'))"

subsection \<open>Sequences of calls\<close>

datatype paging_call = CreateJob string int int "int \<Rightarrow> string" | AccessMemory int int string

fun paging_step :: "dynamic_paging \<Rightarrow> paging_call \<Rightarrow> dynamic_paging" where
  "paging_step s (CreateJob jid job_sz cnt disk) = snd (create_job jid job_sz cnt disk s)"
| "paging_step s (AccessMemory pno offset operation) = snd (access_memory pno offset operation s)"

definition run_paging :: "paging_call list \<Rightarrow> dynamic_paging \<Rightarrow> dynamic_paging" where
  "run_paging calls s = foldl paging_step s calls"

section \<open>Predicates used in the statements and proofs\<close>

subsection \<open>Partition engine\<close>

text \<open>
  A free block that is large enough for a request of \<open>req\<close> units.
\<close>

definition fits :: "int \<Rightarrow> memory_block \<Rightarrow> bool" where
  "fits req b = (\<not> allocated b \<and> req \<le> size_b b)"

text \<open>
  The two accumulators of the \<open>best_fit\<close> loop agree: both unset, or \<open>min_size_diff\<close> is the
  size difference of the block chosen so far.
\<close>

fun best_acc :: "int \<Rightarrow> int option \<Rightarrow> (nat \<times> memory_block) option \<Rightarrow> bool" where
  "best_acc req None None = True"
| "best_acc req (Some d) (Some a) = (d = size_b (snd a) - req)"
| "best_acc req _ _ = False"

text \<open>
  The two accumulators of the \<open>worst_fit\<close> loop agree: \<open>max_size_diff\<close> is \<open>-1\<close> while no block
  is chosen, and the size difference of the chosen block afterwards.
\<close>

fun worst_acc :: "int \<Rightarrow> int \<Rightarrow> (nat \<times> memory_block) option \<Rightarrow> bool" where
  "worst_acc req d None = (d = - 1)"
| "worst_acc req d (Some a) = (d = size_b (snd a) - req)"

text \<open>
  A block list with free blocks of sizes 300, 120, 500 and 120 between allocated ones.
\<close>

definition spec_blocks :: "memory_block list" where
  "spec_blocks =
     [MemoryBlock 0 300 False None, MemoryBlock 300 10 True (Some 1),
      MemoryBlock 310 120 False None, MemoryBlock 430 10 True (Some 2),
      MemoryBlock 440 500 False None, MemoryBlock 940 120 False None]"

text \<open>
  The merging pass as the specification words it: one sweep from left to right that merges
  two adjacent free entries and looks at the same position again. It is compared with the
  loop of the source in \<open>merge_loop_coalesce\<close>.
\<close>

fun coalesce :: "memory_block list \<Rightarrow> memory_block list" where
  "coalesce (a # b # rest) =
     (if \<not> allocated a \<and> \<not> allocated b
      then coalesce (a\<lparr>size_b := size_b a + size_b b\<rparr> # rest)
      else a # coalesce (b # rest))"
| "coalesce bs = bs"

text \<open>
  The parts of the invariant of the block list: ordered by start address, contiguous from
  a given address, pairwise non-overlapping, and without two adjacent free blocks.
\<close>

definition ordered_by_start :: "memory_block list \<Rightarrow> bool" where
  "ordered_by_start bs = sorted_wrt (\<lambda>a b. start_addr a < start_addr b) bs"

fun contiguous_from :: "int \<Rightarrow> memory_block list \<Rightarrow> bool" where
  "contiguous_from a [] = True"
| "contiguous_from a (b # bs) = (start_addr b = a \<and> contiguous_from (a + size_b b) bs)"

definition non_overlapping :: "memory_block list \<Rightarrow> bool" where
  "non_overlapping bs = sorted_wrt (\<lambda>a b. start_addr a + size_b a \<le> start_addr b) bs"

fun no_adjacent_free :: "memory_block list \<Rightarrow> bool" where
  "no_adjacent_free (a # b # rest) = ((allocated a \<or> allocated b) \<and> no_adjacent_free (b # rest))"
| "no_adjacent_free bs = True"

text \<open>
  The invariant of the partition engine.
\<close>

definition partition_invariant :: "dynamic_partition \<Rightarrow> bool" where
  "partition_invariant s =
     (ordered_by_start (memory_blocks s) \<and> contiguous_from 0 (memory_blocks s) \<and>
      non_overlapping (memory_blocks s) \<and>
      sum_list (map size_b (memory_blocks s)) = total_memory s \<and>
      no_adjacent_free (memory_blocks s))"

text \<open>
  A call whose requested size is positive, as the data model requires of a process and as
  the caller checks before it calls \<open>allocate\<close>.
\<close>

fun positive_request :: "partition_call \<Rightarrow> bool" where
  "positive_request (Allocate p n algorithm) = (0 < n)"
| "positive_request (Deallocate p) = True"

text \<open>
  Every block has a positive size.
\<close>

definition positive_sizes :: "memory_block list \<Rightarrow> bool" where
  "positive_sizes bs = (\<forall>b\<in>set bs. 0 < size_b b)"

text \<open>
  The facts about a block list that are proved by induction over the calls.
\<close>

definition blocks_ok :: "int \<Rightarrow> memory_block list \<Rightarrow> bool" where
  "blocks_ok n bs =
     (contiguous_from 0 bs \<and> positive_sizes bs \<and> sum_list (map size_b bs) = n \<and>
      no_adjacent_free bs)"

text \<open>
  The coalescing example: three processes of size 10, then the second and the first released.
\<close>

definition abc_calls :: "partition_call list" where
  "abc_calls =
     [Allocate 1 10 ''first_fit'', Allocate 2 10 ''best_fit'', Allocate 3 10 ''worst_fit'',
      Deallocate 2, Deallocate 1]"

text \<open>
  Process \<open>p\<close> owns an allocated block; and every process of the process map does.
\<close>

definition owns_block :: "dynamic_partition \<Rightarrow> int \<Rightarrow> bool" where
  "owns_block s p = (\<exists>b\<in>set (memory_blocks s). allocated b \<and> process_id b = Some p)"

definition tracked_own :: "dynamic_partition \<Rightarrow> bool" where
  "tracked_own s = (\<forall>p. processes s p \<noteq> None \<longrightarrow> owns_block s p)"

text \<open>
  An engine state over the block list of the example.
\<close>

definition spec_state :: dynamic_partition where
  "spec_state =
     \<lparr>total_memory = 1060, memory_blocks = spec_blocks,
      processes = [1 \<mapsto> Process 1 10, 2 \<mapsto> Process 2 10]\<rparr>"

subsection \<open>Paging engine\<close>

text \<open>
  Every resident page has a frame number within the frame table, and that frame slot holds
  the page's number.
\<close>

definition resident_ok :: "int option list \<Rightarrow> (int \<rightharpoonup> page) \<Rightarrow> bool" where
  "resident_ok fs pt =
     (\<forall>p pg. pt p = Some pg \<longrightarrow> exists pg \<longrightarrow>
        (\<exists>f. frame_no pg = Some f \<and> f < length fs \<and> fs ! f = Some p))"

text \<open>
  Every frame of the list \<open>al\<close> is a slot of the frame table, and when it holds a page number
  that page's entry is resident in this frame.
\<close>

definition allocated_ok :: "int option list \<Rightarrow> (int \<rightharpoonup> page) \<Rightarrow> nat list \<Rightarrow> bool" where
  "allocated_ok fs pt al =
     (\<forall>f\<in>set al. f < length fs \<and>
        (\<forall>p. fs ! f = Some p \<longrightarrow> (\<exists>pg. pt p = Some pg \<and> exists pg \<and> frame_no pg = Some f)))"

text \<open>
  The FIFO queue has no duplicates, its frames are slots that hold a page, and they belong to
  the allocated frames unless that list is empty.
\<close>

definition queue_ok :: "int option list \<Rightarrow> nat list \<Rightarrow> nat list \<Rightarrow> bool" where
  "queue_ok fs al q =
     (distinct q \<and> (\<forall>f\<in>set q. f < length fs \<and> fs ! f \<noteq> None) \<and> (al = [] \<or> set q \<subseteq> set al))"

text \<open>
  The invariant of the paging engine that holds in every reachable state.
\<close>

definition paging_inv :: "dynamic_paging \<Rightarrow> bool" where
  "paging_inv s =
     (resident_ok (frames s) (page_table s) \<and>
      allocated_ok (frames s) (page_table s) (allocated_frames s) \<and>
      queue_ok (frames s) (allocated_frames s) (frame_queue s) \<and>
      sorted (allocated_frames s) \<and> distinct (allocated_frames s))"

text \<open>
  Names for three expressions of the source: the list \<open>free_frames\<close> of \<open>_handle_page_fault\<close>,
  the assignments to the loaded page in \<open>access_memory\<close>, and the assignments to the replaced
  page in \<open>_handle_page_fault\<close>.
\<close>

definition free_allocated :: "dynamic_paging \<Rightarrow> nat list" where
  "free_allocated s = filter (\<lambda>f. frames s ! f = None) (allocated_frames s)"

definition load_page :: "page \<Rightarrow> nat \<Rightarrow> string \<Rightarrow> page" where
  "load_page pg fno operation =
     pg\<lparr>exists := True, frame_no := Some fno,
        modified := (if is_store operation then True else modified pg)\<rparr>"

definition evict_page :: "page \<Rightarrow> page" where
  "evict_page pg = pg\<lparr>exists := False, frame_no := None\<rparr>"

text \<open>
  A list of calls in which no \<open>create_job\<close> is refused for lack of empty frames.
\<close>

fun out_of_frames_call :: "dynamic_paging \<Rightarrow> paging_call \<Rightarrow> bool" where
  "out_of_frames_call s (CreateJob jid job_sz cnt disk) =
     (fst (create_job jid job_sz cnt disk s) = OutOfFrames)"
| "out_of_frames_call s (AccessMemory pno offset operation) = False"

fun no_out_of_frames :: "paging_call list \<Rightarrow> dynamic_paging \<Rightarrow> bool" where
  "no_out_of_frames [] s = True"
| "no_out_of_frames (c # cs) s = (\<not> out_of_frames_call s c \<and> no_out_of_frames cs (paging_step s c))"

text \<open>
  The FIFO queue holds exactly the allocated frames that hold a page.
\<close>

definition queue_full :: "dynamic_paging \<Rightarrow> bool" where
  "queue_full s =
     (set (frame_queue s) = {f \<in> set (allocated_frames s). frames s ! f \<noteq> None})"

text \<open>
  Concrete inputs: a disk-tag generator, the engine built by \<open>DynamicPaging(4, 1, 4)\<close>, and
  that engine after a job of two pages and one frame has stored to page 0.
\<close>

definition no_tags :: "int \<Rightarrow> string" where
  "no_tags i = ''000''"

definition small_engine :: dynamic_paging where
  "small_engine =
     \<lparr>paging_memory = 4096, page_size = 1024, max_job_size = 4096, total_frames = 4,
      frames = [None, None, None, None], current_job = None, page_table = Map.empty,
      allocated_frames = [], frame_queue = []\<rparr>"

definition one_frame_job :: dynamic_paging where
  "one_frame_job =
     run_paging [CreateJob ''A'' 2048 1 no_tags, AccessMemory 0 5 ''save''] small_engine"

text \<open>
  A list of calls in which no \<open>create_job\<close> succeeds; and the calls that are accesses.
\<close>

fun job_created_call :: "dynamic_paging \<Rightarrow> paging_call \<Rightarrow> bool" where
  "job_created_call s (CreateJob jid job_sz cnt disk) =
     (fst (create_job jid job_sz cnt disk s) = JobCreated)"
| "job_created_call s (AccessMemory pno offset operation) = False"

fun no_job_created :: "paging_call list \<Rightarrow> dynamic_paging \<Rightarrow> bool" where
  "no_job_created [] s = True"
| "no_job_created (c # cs) s = (\<not> job_created_call s c \<and> no_job_created cs (paging_step s c))"

fun is_access :: "paging_call \<Rightarrow> bool" where
  "is_access (AccessMemory pno offset operation) = True"
| "is_access (CreateJob jid job_sz cnt disk) = False"

text \<open>
  The four-frame engine after a job of two pages and no frames was created.
\<close>

definition zero_frame_engine :: dynamic_paging where
  "zero_frame_engine = snd (create_job ''Z'' 2048 0 no_tags small_engine)"

text \<open>
  The four-frame engine after a first job loaded page 0 into frame 0 and a second job was
  created.
\<close>

definition two_jobs :: dynamic_paging where
  "two_jobs =
     run_paging [CreateJob ''A'' 2048 1 no_tags, AccessMemory 0 5 ''save'',
                 CreateJob ''B'' 1024 1 no_tags] small_engine"

text \<open>
  One frame and two pages: page 0 is loaded, then replaced by page 1.
\<close>

definition evict_calls :: "paging_call list" where
  "evict_calls =
     [CreateJob ''A'' 2048 1 no_tags, AccessMemory 0 5 ''save'', AccessMemory 1 7 ''load'']"

text \<open>
  Two frames and three pages: page 2 is loaded into the first frame.
\<close>

definition fill_calls :: "paging_call list" where
  "fill_calls = [CreateJob ''A'' 3072 2 no_tags, AccessMemory 2 1 ''save'']"

text \<open>
  Two refused jobs, too large and with too many frames, around an access.
\<close>

definition failed_jobs :: "paging_call list" where
  "failed_jobs =
     [CreateJob ''A'' 5120 1 no_tags, AccessMemory 0 0 ''load'', CreateJob ''B'' 1024 5 no_tags]"

text \<open>
  The call that is refused for lack of empty frames while job A runs.
\<close>

definition refused_job :: "job_outcome \<times> dynamic_paging" where
  "refused_job = create_job ''B'' 1024 4 no_tags one_frame_job"

section \<open>Properties of the partition engine\<close>

lemma first_fit_split:
  "first_fit req ps = Some x \<Longrightarrow>
     \<exists>xs ys. ps = xs @ x # ys \<and> req \<le> size_b (snd x) \<and> (\<forall>y\<in>set xs. \<not> req \<le> size_b (snd y))"
proof (induction req ps rule: first_fit.induct)
  case (1 req)
  then show ?case by simp
next
  case (2 req i b rest)
  show ?case
  proof (cases "req \<le> size_b b")
    case True
    with 2 have "x = (i, b)" by simp
    with True show ?thesis by (intro exI[of _ "[]"] exI[of _ rest]) simp
  next
    case False
    with 2 obtain xs ys where "rest = xs @ x # ys" "req \<le> size_b (snd x)"
      "\<forall>y\<in>set xs. \<not> req \<le> size_b (snd y)" by auto
    with False show ?thesis
      by (intro exI[of _ "(i, b) # xs"] exI[of _ ys]) simp
  qed
qed

lemma first_fit_None: "first_fit req ps = None \<Longrightarrow> \<forall>y\<in>set ps. \<not> req \<le> size_b (snd y)"
  by (induction req ps rule: first_fit.induct) (auto split: if_splits)

lemma best_fit_split:
  "best_fit req ps md acc = Some x \<Longrightarrow> best_acc req md acc \<Longrightarrow>
     (acc = Some x \<and> (\<forall>y\<in>set ps. req \<le> size_b (snd y) \<longrightarrow> size_b (snd x) \<le> size_b (snd y))) \<or>
     (\<exists>xs ys. ps = xs @ x # ys \<and> req \<le> size_b (snd x) \<and>
        (\<forall>y\<in>set xs. req \<le> size_b (snd y) \<longrightarrow> size_b (snd x) < size_b (snd y)) \<and>
        (\<forall>y\<in>set ys. req \<le> size_b (snd y) \<longrightarrow> size_b (snd x) \<le> size_b (snd y)) \<and>
        (\<forall>a. acc = Some a \<longrightarrow> size_b (snd x) < size_b (snd a)))"
proof (induction req ps md acc rule: best_fit.induct)
  case (1 req md acc)
  then show ?case by simp
next
  case (2 req i b rest md acc)
  let ?Q = "\<lambda>ps acc. \<exists>xs ys. ps = xs @ x # ys \<and> req \<le> size_b (snd x) \<and>
        (\<forall>y\<in>set xs. req \<le> size_b (snd y) \<longrightarrow> size_b (snd x) < size_b (snd y)) \<and>
        (\<forall>y\<in>set ys. req \<le> size_b (snd y) \<longrightarrow> size_b (snd x) \<le> size_b (snd y)) \<and>
        (\<forall>a. acc = Some a \<longrightarrow> size_b (snd x) < size_b (snd a))"
  show ?case
  proof (cases "size_b b \<ge> req \<and> below_min (size_b b - req) md")
    case True
    with 2 have *: "best_fit req rest (Some (size_b b - req)) (Some (i, b)) = Some x" by simp
    have lt: "\<forall>a. acc = Some a \<longrightarrow> size_b b < size_b (snd a)"
      using True "2.prems"(2) by (cases md; cases acc) auto
    from "2.IH"(1)[OF True *]
    consider (keep) "x = (i, b)" "\<forall>y\<in>set rest. req \<le> size_b (snd y) \<longrightarrow> size_b (snd x) \<le> size_b (snd y)"
      | (later) "?Q rest (Some (i, b))" by auto
    then have "?Q ((i, b) # rest) acc"
    proof cases
      case keep
      with True lt show ?thesis by (intro exI[of _ "[]"] exI[of _ rest]) simp
    next
      case later
      then obtain xs ys where "rest = xs @ x # ys" "req \<le> size_b (snd x)"
        "\<forall>y\<in>set xs. req \<le> size_b (snd y) \<longrightarrow> size_b (snd x) < size_b (snd y)"
        "\<forall>y\<in>set ys. req \<le> size_b (snd y) \<longrightarrow> size_b (snd x) \<le> size_b (snd y)"
        "size_b (snd x) < size_b b" by auto
      with lt show ?thesis by (intro exI[of _ "(i, b) # xs"] exI[of _ ys]) auto
    qed
    then show ?thesis by blast
  next
    case False
    with 2 have *: "best_fit req rest md acc = Some x" by auto
    have ge: "req \<le> size_b b \<Longrightarrow> \<exists>a. acc = Some a \<and> size_b (snd a) \<le> size_b b"
      using False "2.prems"(2) by (cases md; cases acc) auto
    from "2.IH"(2)[OF False * "2.prems"(2)]
    consider (keep) "acc = Some x" "\<forall>y\<in>set rest. req \<le> size_b (snd y) \<longrightarrow> size_b (snd x) \<le> size_b (snd y)"
      | (later) "?Q rest acc" by auto
    then show ?thesis
    proof cases
      case keep
      with ge show ?thesis by auto
    next
      case later
      then obtain xs ys where "rest = xs @ x # ys" "req \<le> size_b (snd x)"
        "\<forall>y\<in>set xs. req \<le> size_b (snd y) \<longrightarrow> size_b (snd x) < size_b (snd y)"
        "\<forall>y\<in>set ys. req \<le> size_b (snd y) \<longrightarrow> size_b (snd x) \<le> size_b (snd y)"
        "\<forall>a. acc = Some a \<longrightarrow> size_b (snd x) < size_b (snd a)" by auto
      with ge have "?Q ((i, b) # rest) acc"
        by (intro exI[of _ "(i, b) # xs"] exI[of _ ys]) auto
      then show ?thesis by blast
    qed
  qed
qed

lemma best_fit_None:
  "best_fit req ps md acc = None \<Longrightarrow> acc = None \<and> (\<forall>y\<in>set ps. \<not> req \<le> size_b (snd y) \<or> md \<noteq> None)"
  by (induction req ps md acc rule: best_fit.induct) (auto split: if_splits)

lemma worst_fit_split:
  "worst_fit req ps md acc = Some x \<Longrightarrow> worst_acc req md acc \<Longrightarrow>
     (acc = Some x \<and> (\<forall>y\<in>set ps. req \<le> size_b (snd y) \<longrightarrow> size_b (snd y) \<le> size_b (snd x))) \<or>
     (\<exists>xs ys. ps = xs @ x # ys \<and> req \<le> size_b (snd x) \<and>
        (\<forall>y\<in>set xs. req \<le> size_b (snd y) \<longrightarrow> size_b (snd y) < size_b (snd x)) \<and>
        (\<forall>y\<in>set ys. req \<le> size_b (snd y) \<longrightarrow> size_b (snd y) \<le> size_b (snd x)) \<and>
        (\<forall>a. acc = Some a \<longrightarrow> size_b (snd a) < size_b (snd x)))"
proof (induction req ps md acc rule: worst_fit.induct)
  case (1 req md acc)
  then show ?case by simp
next
  case (2 req i b rest md acc)
  let ?Q = "\<lambda>ps acc. \<exists>xs ys. ps = xs @ x # ys \<and> req \<le> size_b (snd x) \<and>
        (\<forall>y\<in>set xs. req \<le> size_b (snd y) \<longrightarrow> size_b (snd y) < size_b (snd x)) \<and>
        (\<forall>y\<in>set ys. req \<le> size_b (snd y) \<longrightarrow> size_b (snd y) \<le> size_b (snd x)) \<and>
        (\<forall>a. acc = Some a \<longrightarrow> size_b (snd a) < size_b (snd x))"
  show ?case
  proof (cases "size_b b \<ge> req \<and> size_b b - req > md")
    case True
    with 2 have *: "worst_fit req rest (size_b b - req) (Some (i, b)) = Some x" by simp
    have lt: "\<forall>a. acc = Some a \<longrightarrow> size_b (snd a) < size_b b"
      using True "2.prems"(2) by (cases acc) auto
    have "worst_acc req (size_b b - req) (Some (i, b))" by simp
    from "2.IH"(1)[OF True * this]
    consider (keep) "x = (i, b)" "\<forall>y\<in>set rest. req \<le> size_b (snd y) \<longrightarrow> size_b (snd y) \<le> size_b (snd x)"
      | (later) "?Q rest (Some (i, b))" by auto
    then have "?Q ((i, b) # rest) acc"
    proof cases
      case keep
      with True lt show ?thesis by (intro exI[of _ "[]"] exI[of _ rest]) simp
    next
      case later
      then obtain xs ys where "rest = xs @ x # ys" "req \<le> size_b (snd x)"
        "\<forall>y\<in>set xs. req \<le> size_b (snd y) \<longrightarrow> size_b (snd y) < size_b (snd x)"
        "\<forall>y\<in>set ys. req \<le> size_b (snd y) \<longrightarrow> size_b (snd y) \<le> size_b (snd x)"
        "size_b b < size_b (snd x)" by auto
      with lt show ?thesis by (intro exI[of _ "(i, b) # xs"] exI[of _ ys]) auto
    qed
    then show ?thesis by blast
  next
    case False
    with 2 have *: "worst_fit req rest md acc = Some x" by auto
    have ge: "req \<le> size_b b \<Longrightarrow> \<exists>a. acc = Some a \<and> size_b b \<le> size_b (snd a)"
      using False "2.prems"(2) by (cases acc) auto
    from "2.IH"(2)[OF False * "2.prems"(2)]
    consider (keep) "acc = Some x" "\<forall>y\<in>set rest. req \<le> size_b (snd y) \<longrightarrow> size_b (snd y) \<le> size_b (snd x)"
      | (later) "?Q rest acc" by auto
    then show ?thesis
    proof cases
      case keep
      with ge show ?thesis by auto
    next
      case later
      then obtain xs ys where "rest = xs @ x # ys" "req \<le> size_b (snd x)"
        "\<forall>y\<in>set xs. req \<le> size_b (snd y) \<longrightarrow> size_b (snd y) < size_b (snd x)"
        "\<forall>y\<in>set ys. req \<le> size_b (snd y) \<longrightarrow> size_b (snd y) \<le> size_b (snd x)"
        "\<forall>a. acc = Some a \<longrightarrow> size_b (snd a) < size_b (snd x)" by auto
      with ge have "?Q ((i, b) # rest) acc"
        by (intro exI[of _ "(i, b) # xs"] exI[of _ ys]) auto
      then show ?thesis by blast
    qed
  qed
qed

lemma worst_fit_None:
  "worst_fit req ps md acc = None \<Longrightarrow>
     acc = None \<and> (\<forall>y\<in>set ps. \<not> (req \<le> size_b (snd y) \<and> md < size_b (snd y) - req))"
  by (induction req ps md acc rule: worst_fit.induct) (auto split: if_splits)

lemma free_blocks_set:
  "(i, b) \<in> set (free_blocks bs) \<longleftrightarrow> i < length bs \<and> bs ! i = b \<and> \<not> allocated b"
  by (auto simp: free_blocks_def in_set_enumerate_eq)

lemma map_snd_filter_enumerate:
  "map snd (filter (\<lambda>(i, b). \<not> allocated b) (enumerate n bs)) = filter (\<lambda>b. \<not> allocated b) bs"
  by (induction bs arbitrary: n) auto

lemma map_snd_free_blocks: "map snd (free_blocks bs) = filter (\<lambda>b. \<not> allocated b) bs"
  by (simp add: free_blocks_def map_snd_filter_enumerate)

lemma free_blocks_ordered:
  assumes "sorted_wrt (\<lambda>a b. start_addr a < start_addr b) bs"
      and "free_blocks bs = xs @ x # ys"
  shows "(\<forall>y\<in>set xs. start_addr (snd y) < start_addr (snd x)) \<and>
         (\<forall>y\<in>set ys. start_addr (snd x) < start_addr (snd y))"
proof -
  have "sorted_wrt (\<lambda>a b. start_addr a < start_addr b) (map snd (free_blocks bs))"
    unfolding map_snd_free_blocks using assms(1) by (rule sorted_wrt_filter)
  then show ?thesis
    unfolding assms(2) by (auto simp: sorted_wrt_append)
qed

lemma free_blocks_fits:
  assumes "fits req c" and "c \<in> set bs"
  shows "\<exists>j. (j, c) \<in> set (free_blocks bs)"
proof -
  from assms(2) obtain j where "j < length bs" "bs ! j = c"
    by (auto simp: in_set_conv_nth)
  with assms(1) have "(j, c) \<in> set (free_blocks bs)"
    by (simp add: free_blocks_set fits_def)
  then show ?thesis ..
qed

lemma mem_free: "x \<in> set (free_blocks bs) \<Longrightarrow> fst x < length bs \<and> bs ! fst x = snd x \<and> \<not> allocated (snd x)"
  using free_blocks_set[of "fst x" "snd x" bs] by simp

lemma ex_free:
  assumes "\<exists>b\<in>set bs. fits req b"
  shows "\<exists>y\<in>set (free_blocks bs). req \<le> size_b (snd y)"
proof -
  from assms obtain b where b: "b \<in> set bs" "fits req b" by blast
  from free_blocks_fits[OF b(2,1)] obtain j where "(j, b) \<in> set (free_blocks bs)" ..
  moreover have "req \<le> size_b (snd (j, b))" using b(2) by (simp add: fits_def)
  ultimately show ?thesis by blast
qed

lemma first_fit_ex: "\<exists>y\<in>set ps. req \<le> size_b (snd y) \<Longrightarrow> \<exists>x. first_fit req ps = Some x"
  using first_fit_None[of req ps] by (cases "first_fit req ps") auto

lemma best_fit_ex: "\<exists>y\<in>set ps. req \<le> size_b (snd y) \<Longrightarrow> \<exists>x. best_fit req ps None None = Some x"
  using best_fit_None[of req ps None None] by (cases "best_fit req ps None None") auto

lemma worst_fit_ex: "\<exists>y\<in>set ps. req \<le> size_b (snd y) \<Longrightarrow> \<exists>x. worst_fit req ps (- 1) None = Some x"
  using worst_fit_None[of req ps "- 1" None] by (cases "worst_fit req ps (- 1) None") auto

lemma first_fit_policy:
  assumes ord: "sorted_wrt (\<lambda>a b. start_addr a < start_addr b) bs"
      and x: "first_fit req (free_blocks bs) = Some x"
      and c: "c \<in> set bs" "fits req c"
  shows "start_addr (snd x) \<le> start_addr c"
proof -
  from first_fit_split[OF x] obtain xs ys where sp: "free_blocks bs = xs @ x # ys"
      "\<forall>y\<in>set xs. \<not> req \<le> size_b (snd y)" by blast
  from free_blocks_ordered[OF ord sp(1)]
  have o: "\<forall>y\<in>set ys. start_addr (snd x) < start_addr (snd y)" by simp
  from free_blocks_fits[OF c(2,1)] obtain j where "(j, c) \<in> set (free_blocks bs)" ..
  then have "(j, c) \<in> set xs \<or> (j, c) = x \<or> (j, c) \<in> set ys" using sp(1) by auto
  then show ?thesis
  proof (elim disjE)
    assume "(j, c) \<in> set xs"
    with sp(2) have "\<not> req \<le> size_b c" by force
    with c(2) show ?thesis by (simp add: fits_def)
  next
    assume "(j, c) = x"
    then show ?thesis by auto
  next
    assume "(j, c) \<in> set ys"
    with o show ?thesis by force
  qed
qed

lemma best_fit_policy:
  assumes ord: "sorted_wrt (\<lambda>a b. start_addr a < start_addr b) bs"
      and x: "best_fit req (free_blocks bs) None None = Some x"
      and c: "c \<in> set bs" "fits req c"
  shows "size_b (snd x) \<le> size_b c \<and>
         (size_b c = size_b (snd x) \<longrightarrow> start_addr (snd x) \<le> start_addr c)"
proof -
  have "best_acc req None None" by simp
  from best_fit_split[OF x this] obtain xs ys where sp: "free_blocks bs = xs @ x # ys"
      "\<forall>y\<in>set xs. req \<le> size_b (snd y) \<longrightarrow> size_b (snd x) < size_b (snd y)"
      "\<forall>y\<in>set ys. req \<le> size_b (snd y) \<longrightarrow> size_b (snd x) \<le> size_b (snd y)" by blast
  from free_blocks_ordered[OF ord sp(1)]
  have o: "\<forall>y\<in>set ys. start_addr (snd x) < start_addr (snd y)" by simp
  have r: "req \<le> size_b c" using c(2) by (simp add: fits_def)
  from free_blocks_fits[OF c(2,1)] obtain j where "(j, c) \<in> set (free_blocks bs)" ..
  then have "(j, c) \<in> set xs \<or> (j, c) = x \<or> (j, c) \<in> set ys" using sp(1) by auto
  then show ?thesis
  proof (elim disjE)
    assume "(j, c) \<in> set xs"
    with sp(2) r show ?thesis by force
  next
    assume "(j, c) = x"
    then show ?thesis by auto
  next
    assume "(j, c) \<in> set ys"
    with o sp(3) r show ?thesis by force
  qed
qed

lemma worst_fit_policy:
  assumes ord: "sorted_wrt (\<lambda>a b. start_addr a < start_addr b) bs"
      and x: "worst_fit req (free_blocks bs) (- 1) None = Some x"
      and c: "c \<in> set bs" "fits req c"
  shows "size_b c \<le> size_b (snd x) \<and>
         (size_b c = size_b (snd x) \<longrightarrow> start_addr (snd x) \<le> start_addr c)"
proof -
  have "worst_acc req (- 1) None" by simp
  from worst_fit_split[OF x this] obtain xs ys where sp: "free_blocks bs = xs @ x # ys"
      "\<forall>y\<in>set xs. req \<le> size_b (snd y) \<longrightarrow> size_b (snd y) < size_b (snd x)"
      "\<forall>y\<in>set ys. req \<le> size_b (snd y) \<longrightarrow> size_b (snd y) \<le> size_b (snd x)" by blast
  from free_blocks_ordered[OF ord sp(1)]
  have o: "\<forall>y\<in>set ys. start_addr (snd x) < start_addr (snd y)" by simp
  have r: "req \<le> size_b c" using c(2) by (simp add: fits_def)
  from free_blocks_fits[OF c(2,1)] obtain j where "(j, c) \<in> set (free_blocks bs)" ..
  then have "(j, c) \<in> set xs \<or> (j, c) = x \<or> (j, c) \<in> set ys" using sp(1) by auto
  then show ?thesis
  proof (elim disjE)
    assume "(j, c) \<in> set xs"
    with sp(2) r show ?thesis by force
  next
    assume "(j, c) = x"
    then show ?thesis by auto
  next
    assume "(j, c) \<in> set ys"
    with o sp(3) r show ?thesis by force
  qed
qed

lemma first_fit_mem: "first_fit req ps = Some x \<Longrightarrow> x \<in> set ps \<and> req \<le> size_b (snd x)"
  using first_fit_split[of req ps x] by auto

lemma best_fit_mem: "best_fit req ps None None = Some x \<Longrightarrow> x \<in> set ps \<and> req \<le> size_b (snd x)"
  using best_fit_split[of req ps None None x] by auto

lemma worst_fit_mem: "worst_fit req ps (- 1) None = Some x \<Longrightarrow> x \<in> set ps \<and> req \<le> size_b (snd x)"
  using worst_fit_split[of req ps "- 1" None x] by auto

lemma find_suitable_sound:
  assumes "find_suitable algorithm req bs = Some (i, b)"
  shows "i < length bs \<and> bs ! i = b \<and> fits req b"
proof -
  from assms have "(i, b) \<in> set (free_blocks bs) \<and> req \<le> size_b b"
    using first_fit_mem[of req "free_blocks bs" "(i, b)"]
          best_fit_mem[of req "free_blocks bs" "(i, b)"]
          worst_fit_mem[of req "free_blocks bs" "(i, b)"]
    by (simp add: find_suitable_def split: if_splits)
  then show ?thesis by (simp add: free_blocks_set fits_def)
qed

text \<open>
  Claim C4. When the block list is ordered by start address and some free block is at
  least as large as the request, \<open>first_fit\<close> selects the fitting free block of lowest start
  address, \<open>best_fit\<close> a fitting free block that minimises \<open>size - requested_size\<close>, and
  \<open>worst_fit\<close> one that maximises it; among fitting free blocks with the same difference
  \<open>best_fit\<close> and \<open>worst_fit\<close> select the one of lowest start address.
\<close>

theorem allocate_selection_policy:
  assumes ord: "sorted_wrt (\<lambda>a b. start_addr a < start_addr b) bs"
      and ex: "\<exists>b\<in>set bs. fits req b"
  shows "(\<exists>i b. find_suitable ''first_fit'' req bs = Some (i, b) \<and> i < length bs \<and> bs ! i = b \<and>
            fits req b \<and> (\<forall>c\<in>set bs. fits req c \<longrightarrow> start_addr b \<le> start_addr c)) \<and>
         (\<exists>i b. find_suitable ''best_fit'' req bs = Some (i, b) \<and> i < length bs \<and> bs ! i = b \<and>
            fits req b \<and>
            (\<forall>c\<in>set bs. fits req c \<longrightarrow>
               size_b b - req \<le> size_b c - req \<and>
               (size_b c - req = size_b b - req \<longrightarrow> start_addr b \<le> start_addr c))) \<and>
         (\<exists>i b. find_suitable ''worst_fit'' req bs = Some (i, b) \<and> i < length bs \<and> bs ! i = b \<and>
            fits req b \<and>
            (\<forall>c\<in>set bs. fits req c \<longrightarrow>
               size_b c - req \<le> size_b b - req \<and>
               (size_b c - req = size_b b - req \<longrightarrow> start_addr b \<le> start_addr c)))"
proof (intro conjI)
  from ex_free[OF ex] have cand: "\<exists>y\<in>set (free_blocks bs). req \<le> size_b (snd y)" .
  {
    from first_fit_ex[OF cand] obtain i b where x: "first_fit req (free_blocks bs) = Some (i, b)"
      by auto
    then have f: "find_suitable ''first_fit'' req bs = Some (i, b)"
      by (simp add: find_suitable_def)
    from first_fit_policy[OF ord x]
    have "\<forall>c\<in>set bs. fits req c \<longrightarrow> start_addr b \<le> start_addr c" by simp
    with f find_suitable_sound[OF f]
    show "\<exists>i b. find_suitable ''first_fit'' req bs = Some (i, b) \<and> i < length bs \<and> bs ! i = b \<and>
            fits req b \<and> (\<forall>c\<in>set bs. fits req c \<longrightarrow> start_addr b \<le> start_addr c)"
      by blast
  }
  {
    from best_fit_ex[OF cand] obtain i b where x: "best_fit req (free_blocks bs) None None = Some (i, b)"
      by auto
    then have f: "find_suitable ''best_fit'' req bs = Some (i, b)"
      by (simp add: find_suitable_def)
    from best_fit_policy[OF ord x]
    have "\<forall>c\<in>set bs. fits req c \<longrightarrow>
               size_b b - req \<le> size_b c - req \<and>
               (size_b c - req = size_b b - req \<longrightarrow> start_addr b \<le> start_addr c)" by simp
    with f find_suitable_sound[OF f]
    show "\<exists>i b. find_suitable ''best_fit'' req bs = Some (i, b) \<and> i < length bs \<and> bs ! i = b \<and>
            fits req b \<and>
            (\<forall>c\<in>set bs. fits req c \<longrightarrow>
               size_b b - req \<le> size_b c - req \<and>
               (size_b c - req = size_b b - req \<longrightarrow> start_addr b \<le> start_addr c))"
      by blast
  }
  {
    from worst_fit_ex[OF cand] obtain i b where x: "worst_fit req (free_blocks bs) (- 1) None = Some (i, b)"
      by auto
    then have f: "find_suitable ''worst_fit'' req bs = Some (i, b)"
      by (simp add: find_suitable_def)
    from worst_fit_policy[OF ord x]
    have "\<forall>c\<in>set bs. fits req c \<longrightarrow>
               size_b c - req \<le> size_b b - req \<and>
               (size_b c - req = size_b b - req \<longrightarrow> start_addr b \<le> start_addr c)" by simp
    with f find_suitable_sound[OF f]
    show "\<exists>i b. find_suitable ''worst_fit'' req bs = Some (i, b) \<and> i < length bs \<and> bs ! i = b \<and>
            fits req b \<and>
            (\<forall>c\<in>set bs. fits req c \<longrightarrow>
               size_b c - req \<le> size_b b - req \<and>
               (size_b c - req = size_b b - req \<longrightarrow> start_addr b \<le> start_addr c))"
      by blast
  }
qed

text \<open>
  The free sizes 300, 120, 500 and 120 of the specification's example, with a request of 100.
\<close>

theorem allocate_selection_policy_witness:
  "sorted_wrt (\<lambda>a b. start_addr a < start_addr b) spec_blocks \<and>
   (\<exists>b\<in>set spec_blocks. fits 100 b) \<and>
   find_suitable ''first_fit'' 100 spec_blocks = Some (0, MemoryBlock 0 300 False None) \<and>
   find_suitable ''best_fit'' 100 spec_blocks = Some (2, MemoryBlock 310 120 False None) \<and>
   find_suitable ''worst_fit'' 100 spec_blocks = Some (4, MemoryBlock 440 500 False None)"
proof -
  have h1: "sorted_wrt (\<lambda>a b. start_addr a < start_addr b) spec_blocks"
    by (simp add: spec_blocks_def MemoryBlock_def)
  have h2: "\<exists>b\<in>set spec_blocks. fits 100 b"
    by (simp add: spec_blocks_def MemoryBlock_def fits_def)
  have "find_suitable ''first_fit'' 100 spec_blocks = Some (0, MemoryBlock 0 300 False None)"
       "find_suitable ''best_fit'' 100 spec_blocks = Some (2, MemoryBlock 310 120 False None)"
       "find_suitable ''worst_fit'' 100 spec_blocks = Some (4, MemoryBlock 440 500 False None)"
    by (simp_all add: find_suitable_def free_blocks_def spec_blocks_def MemoryBlock_def enumerate_eq_zip upt_rec)
  with h1 h2 allocate_selection_policy[OF h1 h2] show ?thesis by simp
qed

lemma pop_at_append: "pop_at (length xs + k) (xs @ ys) = xs @ pop_at k ys"
  by (simp add: pop_at_def)

lemma merge_loop_step:
  "merge_loop (length xs) (xs @ a # b # rest) =
     (if \<not> allocated a \<and> \<not> allocated b
      then merge_loop (length xs) (xs @ a\<lparr>size_b := size_b a + size_b b\<rparr> # rest)
      else merge_loop (length (xs @ [a])) ((xs @ [a]) @ b # rest))"
  by (subst merge_loop.simps) (simp add: nth_append pop_at_def)

lemma merge_loop_last: "merge_loop (length xs) (xs @ [a]) = xs @ [a]"
  by (subst merge_loop.simps) simp

lemma merge_loop_end: "merge_loop (length xs) xs = xs"
  by (subst merge_loop.simps) simp

lemma merge_loop_coalesce: "merge_loop (length xs) (xs @ ys) = xs @ coalesce ys"
proof (induction ys arbitrary: xs rule: coalesce.induct)
  case (1 a b rest)
  show ?case
  proof (cases "\<not> allocated a \<and> \<not> allocated b")
    case True
    with "1.IH"(1)[OF True, of xs] show ?thesis
      by (simp add: merge_loop_step)
  next
    case False
    have "merge_loop (length (xs @ [a])) ((xs @ [a]) @ b # rest) = (xs @ [a]) @ coalesce (b # rest)"
      using "1.IH"(2)[OF False] .
    with False show ?thesis
      by (auto simp add: merge_loop_step)
  qed
qed (simp_all add: merge_loop_end merge_loop_last)

lemma merge_adjacent_blocks_coalesce: "merge_adjacent_blocks bs = coalesce bs"
  using merge_loop_coalesce[of "[]" bs] by (simp add: merge_adjacent_blocks_def)

lemma contiguous_from_append:
  "contiguous_from a (xs @ ys) \<longleftrightarrow>
     contiguous_from a xs \<and> contiguous_from (a + sum_list (map size_b xs)) ys"
  by (induction xs arbitrary: a) (auto simp: add.assoc)

lemma contiguous_bounds:
  "contiguous_from a bs \<Longrightarrow> positive_sizes bs \<Longrightarrow> b \<in> set bs \<Longrightarrow>
     a \<le> start_addr b \<and> start_addr b + size_b b \<le> a + sum_list (map size_b bs)"
proof (induction bs arbitrary: a)
  case Nil
  then show ?case by simp
next
  case (Cons c bs)
  have nn: "0 \<le> sum_list (map size_b bs)"
    using Cons.prems(2) by (intro sum_list_nonneg) (auto simp: positive_sizes_def)
  show ?case
  proof (cases "b = c")
    case True
    with Cons.prems nn show ?thesis by simp
  next
    case False
    with Cons.prems have "b \<in> set bs" "contiguous_from (a + size_b c) bs" "positive_sizes bs" "0 < size_b c"
      by (auto simp: positive_sizes_def)
    from Cons.IH[OF this(2,3,1)] this(4) show ?thesis by simp
  qed
qed

lemma contiguous_ordered:
  "contiguous_from a bs \<Longrightarrow> positive_sizes bs \<Longrightarrow> ordered_by_start bs \<and> non_overlapping bs"
proof (induction bs arbitrary: a)
  case Nil
  then show ?case by (simp add: ordered_by_start_def non_overlapping_def)
next
  case (Cons c bs)
  then have t: "contiguous_from (a + size_b c) bs" "positive_sizes bs" "0 < size_b c" "start_addr c = a"
    by (auto simp: positive_sizes_def)
  have "\<forall>b\<in>set bs. start_addr c + size_b c \<le> start_addr b"
    using contiguous_bounds[OF t(1,2)] t(4) by auto
  with Cons.IH[OF t(1,2)] t(3) show ?case
    by (fastforce simp: ordered_by_start_def non_overlapping_def)
qed

lemma no_adjacent_free_Cons:
  "no_adjacent_free (a # bs) \<longleftrightarrow> (bs = [] \<or> allocated a \<or> allocated (hd bs)) \<and> no_adjacent_free bs"
  by (cases bs) auto

lemma no_adjacent_free_append:
  "no_adjacent_free (xs @ ys) \<longleftrightarrow>
     no_adjacent_free xs \<and> no_adjacent_free ys \<and>
     (xs = [] \<or> ys = [] \<or> allocated (last xs) \<or> allocated (hd ys))"
proof (induction xs)
  case Nil
  then show ?case by simp
next
  case (Cons a xs)
  show ?case
  proof (cases xs)
    case Nil
    then show ?thesis by (auto simp: no_adjacent_free_Cons)
  next
    case (Cons b xs')
    with Cons.IH show ?thesis by auto
  qed
qed

lemma coalesce_head:
  "coalesce (a # bs) \<noteq> [] \<and> allocated (hd (coalesce (a # bs))) = allocated a"
proof (induction bs arbitrary: a)
  case Nil
  then show ?case by simp
next
  case (Cons b bs)
  from Cons[of "a\<lparr>size_b := size_b a + size_b b\<rparr>"] show ?case by simp
qed

lemma coalesce_no_adjacent_free: "no_adjacent_free (coalesce bs)"
proof (induction bs rule: coalesce.induct)
  case (1 a b rest)
  then show ?case using coalesce_head[of b rest]
    by (auto simp: no_adjacent_free_Cons)
qed simp_all

lemma coalesce_contiguous: "contiguous_from s bs \<Longrightarrow> contiguous_from s (coalesce bs)"
  by (induction bs arbitrary: s rule: coalesce.induct) (auto simp: add.assoc)

lemma coalesce_positive: "positive_sizes bs \<Longrightarrow> positive_sizes (coalesce bs)"
  by (induction bs rule: coalesce.induct) (auto simp: positive_sizes_def)

lemma coalesce_sum: "sum_list (map size_b (coalesce bs)) = sum_list (map size_b bs)"
  by (induction bs rule: coalesce.induct) auto

lemma insert_pop:
  "i < length bs \<Longrightarrow> insert_at i x (pop_at i bs) = take i bs @ x # drop (Suc i) bs"
  by (simp add: insert_at_def pop_at_def min_def)

lemma insert_at_take:
  "i < length bs \<Longrightarrow> insert_at i x (take i bs @ ys) = take i bs @ x # ys"
  by (simp add: insert_at_def min_def)

lemma allocate_effect:
  assumes "allocate p algorithm s = (r, s')" and "succeeded r"
  shows "\<exists>i b. find_suitable algorithm (memory_size p) (memory_blocks s) = Some (i, b) \<and>
           i < length (memory_blocks s) \<and> memory_blocks s ! i = b \<and> fits (memory_size p) b \<and>
           memory_blocks s' =
             take i (memory_blocks s) @
             MemoryBlock (start_addr b) (memory_size p) True (Some (pid p)) #
             (if size_b b > memory_size p
              then [MemoryBlock (start_addr b + memory_size p) (size_b b - memory_size p) False None]
              else []) @
             drop (Suc i) (memory_blocks s) \<and>
           processes s' =
             (processes s)(pid p \<mapsto>
                p\<lparr>allocated_block :=
                     Some (MemoryBlock (start_addr b) (memory_size p) True (Some (pid p)))\<rparr>) \<and>
           total_memory s' = total_memory s \<and> r = Allocated"
proof -
  from assms have nd: "processes s (pid p) = None"
    by (auto simp: allocate_def split: if_splits)
  from assms nd obtain i b where f: "find_suitable algorithm (memory_size p) (memory_blocks s) = Some (i, b)"
    by (cases "find_suitable algorithm (memory_size p) (memory_blocks s)") (auto simp: allocate_def)
  from find_suitable_sound[OF f] have snd: "i < length (memory_blocks s)" "memory_blocks s ! i = b"
    "fits (memory_size p) b" by simp_all
  from assms(1) nd f snd(1) have
    "r = Allocated"
    "memory_blocks s' =
             take i (memory_blocks s) @
             MemoryBlock (start_addr b) (memory_size p) True (Some (pid p)) #
             (if size_b b > memory_size p
              then [MemoryBlock (start_addr b + memory_size p) (size_b b - memory_size p) False None]
              else []) @
             drop (Suc i) (memory_blocks s)"
    "processes s' =
             (processes s)(pid p \<mapsto>
                p\<lparr>allocated_block :=
                     Some (MemoryBlock (start_addr b) (memory_size p) True (Some (pid p)))\<rparr>)"
    "total_memory s' = total_memory s"
    by (auto simp: allocate_def Let_def insert_pop insert_at_take)
  with f snd show ?thesis by blast
qed

lemma allocate_failure:
  "allocate p algorithm s = (r, s') \<Longrightarrow> \<not> succeeded r \<Longrightarrow> s' = s"
  by (auto simp: allocate_def Let_def split: if_splits option.splits)

lemma split_block_ok:
  assumes "blocks_ok n (xs @ b # ys)" and "\<not> allocated b" and "0 < req" and "req \<le> size_b b"
  shows "blocks_ok n (xs @ MemoryBlock (start_addr b) req True (Some p) #
           (if size_b b > req
            then [MemoryBlock (start_addr b + req) (size_b b - req) False None] else []) @ ys)"
  using assms
  by (auto simp: blocks_ok_def contiguous_from_append no_adjacent_free_append
      no_adjacent_free_Cons positive_sizes_def MemoryBlock_def)

lemma allocate_blocks_ok:
  assumes ok: "blocks_ok (total_memory s) (memory_blocks s)" and pos: "0 < memory_size p"
  shows "blocks_ok (total_memory (snd (allocate p algorithm s)))
           (memory_blocks (snd (allocate p algorithm s)))"
proof (cases "succeeded (fst (allocate p algorithm s))")
  case True
  obtain r s' where a: "allocate p algorithm s = (r, s')" by (cases "allocate p algorithm s")
  with True have "succeeded r" by simp
  from allocate_effect[OF a this] obtain i b where
    ib: "i < length (memory_blocks s)" "memory_blocks s ! i = b" "fits (memory_size p) b" and
    bs': "memory_blocks s' =
             take i (memory_blocks s) @
             MemoryBlock (start_addr b) (memory_size p) True (Some (pid p)) #
             (if size_b b > memory_size p
              then [MemoryBlock (start_addr b + memory_size p) (size_b b - memory_size p) False None]
              else []) @
             drop (Suc i) (memory_blocks s)" and
    tm: "total_memory s' = total_memory s" by blast
  have "memory_blocks s = take i (memory_blocks s) @ b # drop (Suc i) (memory_blocks s)"
    using id_take_nth_drop[OF ib(1)] ib(2) by simp
  with ok have "blocks_ok (total_memory s) (take i (memory_blocks s) @ b # drop (Suc i) (memory_blocks s))"
    by simp
  from split_block_ok[OF this _ pos, of "pid p"] ib(3)
  show ?thesis unfolding a by (simp add: bs' tm fits_def)
next
  case False
  then have "snd (allocate p algorithm s) = s"
    using allocate_failure[of p algorithm s] by (cases "allocate p algorithm s") auto
  with ok show ?thesis by simp
qed

lemma find_owned_sound:
  "find_owned p ps = Some x \<Longrightarrow> x \<in> set ps \<and> allocated (snd x) \<and> process_id (snd x) = Some p"
  by (induction p ps rule: find_owned.induct) (auto split: if_splits)

lemma find_owned_None:
  "find_owned p ps = None \<Longrightarrow> \<forall>x\<in>set ps. \<not> (allocated (snd x) \<and> process_id (snd x) = Some p)"
  by (induction p ps rule: find_owned.induct) (auto split: if_splits)

lemma deallocate_effect:
  assumes "deallocate p s = (r, s')" and "succeeded r"
  shows "\<exists>i b. i < length (memory_blocks s) \<and> memory_blocks s ! i = b \<and> allocated b \<and>
           process_id b = Some p \<and>
           memory_blocks s' =
             coalesce (take i (memory_blocks s) @
                       MemoryBlock (start_addr b) (size_b b) False None #
                       drop (Suc i) (memory_blocks s)) \<and>
           processes s' = (processes s)(p := None) \<and> total_memory s' = total_memory s \<and>
           r = Released"
proof -
  from assms have d: "processes s p \<noteq> None"
    by (auto simp: deallocate_def split: if_splits)
  from assms d obtain i b where f: "find_owned p (enumerate 0 (memory_blocks s)) = Some (i, b)"
    by (cases "find_owned p (enumerate 0 (memory_blocks s))") (auto simp: deallocate_def)
  from find_owned_sound[OF f] have ib: "i < length (memory_blocks s)" "memory_blocks s ! i = b"
    "allocated b" "process_id b = Some p"
    by (auto simp: in_set_enumerate_eq)
  from assms(1) d f ib(1) have
    "r = Released"
    "memory_blocks s' =
             coalesce (take i (memory_blocks s) @
                       MemoryBlock (start_addr b) (size_b b) False None #
                       drop (Suc i) (memory_blocks s))"
    "processes s' = (processes s)(p := None)" "total_memory s' = total_memory s"
    by (auto simp: deallocate_def Let_def merge_adjacent_blocks_coalesce upd_conv_take_nth_drop)
  with ib show ?thesis by blast
qed

lemma deallocate_failure:
  "deallocate p s = (r, s') \<Longrightarrow> \<not> succeeded r \<Longrightarrow> s' = s"
  by (auto simp: deallocate_def Let_def split: if_splits option.splits)

lemma free_block_ok:
  assumes "blocks_ok n (xs @ b # ys)"
  shows "blocks_ok n (coalesce (xs @ MemoryBlock (start_addr b) (size_b b) False None # ys))"
proof -
  let ?bs = "xs @ MemoryBlock (start_addr b) (size_b b) False None # ys"
  from assms have "contiguous_from 0 ?bs" "positive_sizes ?bs" "sum_list (map size_b ?bs) = n"
    by (auto simp: blocks_ok_def contiguous_from_append positive_sizes_def MemoryBlock_def)
  then show ?thesis
    unfolding blocks_ok_def
    using coalesce_contiguous coalesce_positive coalesce_sum coalesce_no_adjacent_free by metis
qed

lemma deallocate_blocks_ok:
  assumes ok: "blocks_ok (total_memory s) (memory_blocks s)"
  shows "blocks_ok (total_memory (snd (deallocate p s))) (memory_blocks (snd (deallocate p s)))"
proof (cases "succeeded (fst (deallocate p s))")
  case True
  obtain r s' where a: "deallocate p s = (r, s')" by (cases "deallocate p s")
  with True have "succeeded r" by simp
  from deallocate_effect[OF a this] obtain i b where
    ib: "i < length (memory_blocks s)" "memory_blocks s ! i = b" and
    bs': "memory_blocks s' =
             coalesce (take i (memory_blocks s) @
                       MemoryBlock (start_addr b) (size_b b) False None #
                       drop (Suc i) (memory_blocks s))" and
    tm: "total_memory s' = total_memory s" by blast
  have "memory_blocks s = take i (memory_blocks s) @ b # drop (Suc i) (memory_blocks s)"
    using id_take_nth_drop[OF ib(1)] ib(2) by simp
  with ok have "blocks_ok (total_memory s) (take i (memory_blocks s) @ b # drop (Suc i) (memory_blocks s))"
    by simp
  from free_block_ok[OF this]
  show ?thesis unfolding a by (simp add: bs' tm)
next
  case False
  then have "snd (deallocate p s) = s"
    using deallocate_failure[of p s] by (cases "deallocate p s") auto
  with ok show ?thesis by simp
qed

lemma run_partition_blocks_ok:
  "blocks_ok (total_memory s) (memory_blocks s) \<Longrightarrow> \<forall>c\<in>set calls. positive_request c \<Longrightarrow>
     blocks_ok (total_memory (run_partition calls s)) (memory_blocks (run_partition calls s))"
proof (induction calls arbitrary: s)
  case Nil
  then show ?case by (simp add: run_partition_def)
next
  case (Cons c calls)
  have "blocks_ok (total_memory (partition_step s c)) (memory_blocks (partition_step s c))"
  proof (cases c)
    case (Allocate p n algorithm)
    with Cons.prems(2) have "0 < memory_size (Process p n)" by (simp add: Process_def)
    from allocate_blocks_ok[OF Cons.prems(1) this] Allocate show ?thesis by simp
  next
    case (Deallocate p)
    with deallocate_blocks_ok[OF Cons.prems(1)] show ?thesis by simp
  qed
  from Cons.IH[OF this] Cons.prems(2) show ?case by (simp add: run_partition_def)
qed

lemma run_partition_total_memory: "total_memory (run_partition calls s) = total_memory s"
proof (induction calls arbitrary: s)
  case Nil
  then show ?case by (simp add: run_partition_def)
next
  case (Cons c calls)
  have "total_memory (partition_step s c) = total_memory s"
  proof (cases c)
    case (Allocate p n algorithm)
    then show ?thesis
      by (auto simp: allocate_def Let_def split: option.splits)
  next
    case (Deallocate p)
    then show ?thesis
      by (auto simp: deallocate_def Let_def split: option.splits)
  qed
  with Cons.IH[of "partition_step s c"] show ?case by (simp add: run_partition_def)
qed

lemma partition_invariant_positive:
  assumes "0 < n" and "\<forall>c\<in>set calls. positive_request c"
  shows "partition_invariant (run_partition calls (DynamicPartition n)) \<and>
         total_memory (run_partition calls (DynamicPartition n)) = n \<and>
         positive_sizes (memory_blocks (run_partition calls (DynamicPartition n)))"
proof -
  let ?s = "run_partition calls (DynamicPartition n)"
  have "blocks_ok (total_memory (DynamicPartition n)) (memory_blocks (DynamicPartition n))"
    using assms(1) by (simp add: DynamicPartition_def blocks_ok_def MemoryBlock_def positive_sizes_def)
  from run_partition_blocks_ok[OF this assms(2)]
  have ok: "blocks_ok (total_memory ?s) (memory_blocks ?s)" .
  then have "ordered_by_start (memory_blocks ?s) \<and> non_overlapping (memory_blocks ?s)"
    using contiguous_ordered[of 0 "memory_blocks ?s"] by (simp add: blocks_ok_def)
  with ok have "partition_invariant ?s" by (simp add: partition_invariant_def blocks_ok_def)
  moreover have "total_memory ?s = n"
    by (simp add: run_partition_total_memory DynamicPartition_def)
  ultimately show ?thesis using ok by (simp add: blocks_ok_def)
qed

lemma no_fit_single:
  assumes "n < req"
  shows "find_suitable algorithm req [MemoryBlock 0 n False None] = None"
  using assms by (simp add: find_suitable_def free_blocks_def MemoryBlock_def)

lemma run_partition_nonpositive:
  assumes "n \<le> 0" and "\<forall>c\<in>set calls. positive_request c"
  shows "run_partition calls (DynamicPartition n) = DynamicPartition n"
  using assms(2)
proof (induction calls)
  case Nil
  then show ?case by (simp add: run_partition_def)
next
  case (Cons c calls)
  have "partition_step (DynamicPartition n) c = DynamicPartition n"
  proof (cases c)
    case (Allocate p m algorithm)
    with Cons.prems assms(1) have "n < m" by simp
    from no_fit_single[OF this] Allocate show ?thesis
      by (simp add: allocate_def DynamicPartition_def Process_def)
  next
    case (Deallocate p)
    then show ?thesis by (simp add: deallocate_def DynamicPartition_def)
  qed
  with Cons show ?case by (simp add: run_partition_def)
qed

lemma partition_invariant_init: "partition_invariant (DynamicPartition n)"
  by (simp add: partition_invariant_def DynamicPartition_def MemoryBlock_def
      ordered_by_start_def non_overlapping_def)

lemma partition_invariant_run:
  assumes "\<forall>c\<in>set calls. positive_request c"
  shows "partition_invariant (run_partition calls (DynamicPartition n)) \<and>
         total_memory (run_partition calls (DynamicPartition n)) = n"
proof (cases "0 < n")
  case True
  from partition_invariant_positive[OF True assms] show ?thesis by simp
next
  case False
  then have "n \<le> 0" by simp
  from run_partition_nonpositive[OF this assms] show ?thesis
    by (simp add: partition_invariant_init) (simp add: DynamicPartition_def)
qed

lemma merge_pass_no_adjacent_free: "no_adjacent_free (merge_adjacent_blocks bs)"
  by (simp add: merge_adjacent_blocks_coalesce coalesce_no_adjacent_free)

text \<open>
  Claim C5. In every state reached from a fresh engine by calls of \<open>allocate\<close> (with a positive
  requested size) and \<open>deallocate\<close>, the block list is ordered by start address, contiguous
  from address 0, non-overlapping, its sizes sum to the memory size, and no two adjacent
  blocks are both free. The merging pass leaves no two adjacent free blocks in any list, so
  a chain of free neighbours collapses in one pass.
\<close>

theorem partition_invariant_reachable:
  assumes "\<forall>c\<in>set calls. positive_request c"
  shows "partition_invariant (run_partition calls (DynamicPartition n)) \<and>
         total_memory (run_partition calls (DynamicPartition n)) = n \<and>
         no_adjacent_free (merge_adjacent_blocks bs)"
  using partition_invariant_run[OF assms] merge_pass_no_adjacent_free by simp

lemma abc_run:
  "memory_blocks (run_partition abc_calls (DynamicPartition 30)) =
     [MemoryBlock 0 20 False None, MemoryBlock 20 10 True (Some 3)]"
  by code_simp

text \<open>
  Three processes of size 10 in a memory of 30, then the second and the first released; and
  a chain of three free blocks merged in one pass.
\<close>

theorem partition_invariant_reachable_witness:
  "memory_blocks (run_partition abc_calls (DynamicPartition 30)) =
     [MemoryBlock 0 20 False None, MemoryBlock 20 10 True (Some 3)] \<and>
   partition_invariant (run_partition abc_calls (DynamicPartition 30)) \<and>
   merge_adjacent_blocks
     [MemoryBlock 0 10 False None, MemoryBlock 10 10 False None, MemoryBlock 20 10 False None] =
     [MemoryBlock 0 30 False None] \<and>
   no_adjacent_free (merge_adjacent_blocks
     [MemoryBlock 0 10 False None, MemoryBlock 10 10 False None, MemoryBlock 20 10 False None])"
proof -
  have h: "\<forall>c\<in>set abc_calls. positive_request c" by (simp add: abc_calls_def)
  have m: "merge_adjacent_blocks
     [MemoryBlock 0 10 False None, MemoryBlock 10 10 False None, MemoryBlock 20 10 False None] =
     [MemoryBlock 0 30 False None]" by code_simp
  from partition_invariant_reachable[OF h, of 30
      "[MemoryBlock 0 10 False None, MemoryBlock 10 10 False None, MemoryBlock 20 10 False None]"]
    h abc_run m
  show ?thesis by simp
qed

lemma coalesce_keeps_allocated:
  "b \<in> set bs \<Longrightarrow> allocated b \<Longrightarrow> b \<in> set (coalesce bs)"
  by (induction bs rule: coalesce.induct) auto

lemma set_split_at:
  assumes "i < length bs"
  shows "set bs = set (take i bs) \<union> {bs ! i} \<union> set (drop (Suc i) bs)"
proof -
  have "set bs = set (take i bs @ bs ! i # drop (Suc i) bs)"
    using id_take_nth_drop[OF assms] by (rule arg_cong)
  also have "\<dots> = set (take i bs) \<union> {bs ! i} \<union> set (drop (Suc i) bs)" by simp
  finally show ?thesis .
qed

lemma allocate_tracked:
  assumes t: "tracked_own s"
  shows "tracked_own (snd (allocate p algorithm s))"
proof (cases "succeeded (fst (allocate p algorithm s))")
  case True
  obtain r s' where a: "allocate p algorithm s = (r, s')" by (cases "allocate p algorithm s")
  with True have "succeeded r" by simp
  from allocate_effect[OF a this] obtain i b where
    ib: "i < length (memory_blocks s)" "memory_blocks s ! i = b" "fits (memory_size p) b" and
    bs': "memory_blocks s' =
             take i (memory_blocks s) @
             MemoryBlock (start_addr b) (memory_size p) True (Some (pid p)) #
             (if size_b b > memory_size p
              then [MemoryBlock (start_addr b + memory_size p) (size_b b - memory_size p) False None]
              else []) @
             drop (Suc i) (memory_blocks s)" and
    pr: "processes s' =
             (processes s)(pid p \<mapsto>
                p\<lparr>allocated_block :=
                     Some (MemoryBlock (start_addr b) (memory_size p) True (Some (pid p)))\<rparr>)"
    by blast
  have "owns_block s' q" if q: "processes s' q \<noteq> None" for q
  proof (cases "q = pid p")
    case True
    then show ?thesis by (auto simp: owns_block_def bs' MemoryBlock_def)
  next
    case False
    with q pr have "processes s q \<noteq> None" by simp
    with t obtain c where c: "c \<in> set (memory_blocks s)" "allocated c" "process_id c = Some q"
      by (auto simp: tracked_own_def owns_block_def)
    with ib(2,3) have "c \<noteq> memory_blocks s ! i" by (auto simp: fits_def)
    with c(1) set_split_at[OF ib(1)]
    have "c \<in> set (take i (memory_blocks s)) \<or> c \<in> set (drop (Suc i) (memory_blocks s))" by auto
    with c(2,3) show ?thesis unfolding owns_block_def bs' by auto
  qed
  then show ?thesis by (simp add: a tracked_own_def)
next
  case False
  then have "snd (allocate p algorithm s) = s"
    using allocate_failure[of p algorithm s] by (cases "allocate p algorithm s") auto
  with t show ?thesis by simp
qed

lemma deallocate_tracked:
  assumes t: "tracked_own s"
  shows "tracked_own (snd (deallocate p s))"
proof (cases "succeeded (fst (deallocate p s))")
  case True
  obtain r s' where a: "deallocate p s = (r, s')" by (cases "deallocate p s")
  with True have "succeeded r" by simp
  from deallocate_effect[OF a this] obtain i b where
    ib: "i < length (memory_blocks s)" "memory_blocks s ! i = b" "process_id b = Some p" and
    bs': "memory_blocks s' =
             coalesce (take i (memory_blocks s) @
                       MemoryBlock (start_addr b) (size_b b) False None #
                       drop (Suc i) (memory_blocks s))" and
    pr: "processes s' = (processes s)(p := None)"
    by blast
  have "owns_block s' q" if q: "processes s' q \<noteq> None" for q
  proof -
    from q pr have qp: "q \<noteq> p" "processes s q \<noteq> None" by (auto split: if_splits)
    with t obtain c where c: "c \<in> set (memory_blocks s)" "allocated c" "process_id c = Some q"
      by (auto simp: tracked_own_def owns_block_def)
    with ib(2,3) qp(1) have "c \<noteq> memory_blocks s ! i" by auto
    with c(1) set_split_at[OF ib(1)]
    have "c \<in> set (take i (memory_blocks s)) \<or> c \<in> set (drop (Suc i) (memory_blocks s))" by auto
    then have "c \<in> set (take i (memory_blocks s) @
                       MemoryBlock (start_addr b) (size_b b) False None #
                       drop (Suc i) (memory_blocks s))" by auto
    from coalesce_keeps_allocated[OF this c(2)] c(2,3)
    show ?thesis unfolding owns_block_def bs' by auto
  qed
  then show ?thesis by (simp add: a tracked_own_def)
next
  case False
  then have "snd (deallocate p s) = s"
    using deallocate_failure[of p s] by (cases "deallocate p s") auto
  with t show ?thesis by simp
qed

lemma run_partition_tracked: "tracked_own s \<Longrightarrow> tracked_own (run_partition calls s)"
proof (induction calls arbitrary: s)
  case Nil
  then show ?case by (simp add: run_partition_def)
next
  case (Cons c calls)
  have "tracked_own (partition_step s c)"
    using Cons.prems allocate_tracked deallocate_tracked by (cases c) simp_all
  from Cons.IH[OF this] show ?case by (simp add: run_partition_def)
qed

lemma find_owned_complete:
  assumes "owns_block s p"
  shows "find_owned p (enumerate 0 (memory_blocks s)) \<noteq> None"
proof
  assume "find_owned p (enumerate 0 (memory_blocks s)) = None"
  from find_owned_None[OF this]
  have n: "\<And>x. x \<in> set (enumerate 0 (memory_blocks s)) \<Longrightarrow>
             \<not> (allocated (snd x) \<and> process_id (snd x) = Some p)" by blast
  from assms obtain i where i: "i < length (memory_blocks s)" "allocated (memory_blocks s ! i)"
    "process_id (memory_blocks s ! i) = Some p"
    by (auto simp: owns_block_def in_set_conv_nth)
  then have "(i, memory_blocks s ! i) \<in> set (enumerate 0 (memory_blocks s))"
    by (simp add: in_set_enumerate_eq)
  from n[OF this] i show False by simp
qed

lemma deallocate_tracked_succeeds:
  assumes "tracked_own s"
  shows "fst (deallocate p s) \<noteq> NoAllocatedBlock \<and>
         (processes s p \<noteq> None \<longrightarrow> owns_block s p \<and> fst (deallocate p s) = Released)"
proof (cases "processes s p = None")
  case True
  then show ?thesis by (simp add: deallocate_def)
next
  case False
  with assms have o: "owns_block s p" by (simp add: tracked_own_def)
  from find_owned_complete[OF this] False o show ?thesis
    by (auto simp: deallocate_def Let_def split: option.splits)
qed

text \<open>
  Claim C8. In every reachable state a process id in the process map owns an allocated
  block, so \<open>deallocate\<close> never reports a tracked process without a block, and releasing a
  tracked id succeeds.
\<close>

theorem tracked_process_owns_block:
  "fst (deallocate p (run_partition calls (DynamicPartition n))) \<noteq> NoAllocatedBlock \<and>
   (processes (run_partition calls (DynamicPartition n)) p \<noteq> None \<longrightarrow>
      owns_block (run_partition calls (DynamicPartition n)) p \<and>
      fst (deallocate p (run_partition calls (DynamicPartition n))) = Released)"
proof -
  have "tracked_own (DynamicPartition n)" by (simp add: tracked_own_def DynamicPartition_def)
  from deallocate_tracked_succeeds[OF run_partition_tracked[OF this]] show ?thesis .
qed

text \<open>
  Process 3 is still tracked after the calls of the example above.
\<close>

theorem tracked_process_owns_block_witness:
  "processes (run_partition abc_calls (DynamicPartition 30)) 3 \<noteq> None \<and>
   owns_block (run_partition abc_calls (DynamicPartition 30)) 3 \<and>
   fst (deallocate 3 (run_partition abc_calls (DynamicPartition 30))) = Released"
proof -
  have "processes (run_partition abc_calls (DynamicPartition 30)) 3 \<noteq> None" by code_simp
  with tracked_process_owns_block[of 3 abc_calls 30] show ?thesis by simp
qed

text \<open>
  Claim C6. A successful \<open>allocate\<close> replaces the chosen free block, in place, by an
  allocated block of exactly the requested size at the same start address and owned by the
  process, followed by a free block with the remainder exactly when the chosen block was
  larger; the blocks before and after are unchanged and the process is recorded.
\<close>

theorem allocate_replaces_chosen_block:
  assumes "allocate p algorithm s = (r, s')" and "succeeded r"
  shows "\<exists>i b. find_suitable algorithm (memory_size p) (memory_blocks s) = Some (i, b) \<and>
           i < length (memory_blocks s) \<and> memory_blocks s ! i = b \<and> fits (memory_size p) b \<and>
           memory_blocks s' =
             take i (memory_blocks s) @
             MemoryBlock (start_addr b) (memory_size p) True (Some (pid p)) #
             (if size_b b > memory_size p
              then [MemoryBlock (start_addr b + memory_size p) (size_b b - memory_size p) False None]
              else []) @
             drop (Suc i) (memory_blocks s) \<and>
           processes s' =
             (processes s)(pid p \<mapsto>
                p\<lparr>allocated_block :=
                     Some (MemoryBlock (start_addr b) (memory_size p) True (Some (pid p)))\<rparr>) \<and>
           total_memory s' = total_memory s \<and> r = Allocated"
  using allocate_effect[OF assms] .

text \<open>
  A best-fit allocation of 100 in the block list of the example above.
\<close>

theorem allocate_replaces_chosen_block_witness:
  "fst (allocate (Process 7 100) ''best_fit'' spec_state) = Allocated \<and>
   succeeded (fst (allocate (Process 7 100) ''best_fit'' spec_state)) \<and>
   memory_blocks (snd (allocate (Process 7 100) ''best_fit'' spec_state)) =
     [MemoryBlock 0 300 False None, MemoryBlock 300 10 True (Some 1),
      MemoryBlock 310 100 True (Some 7), MemoryBlock 410 20 False None,
      MemoryBlock 430 10 True (Some 2),
      MemoryBlock 440 500 False None, MemoryBlock 940 120 False None]"
proof -
  have a: "allocate (Process 7 100) ''best_fit'' spec_state =
        (fst (allocate (Process 7 100) ''best_fit'' spec_state),
         snd (allocate (Process 7 100) ''best_fit'' spec_state))" by simp
  have s: "succeeded (fst (allocate (Process 7 100) ''best_fit'' spec_state))" by code_simp
  have f: "find_suitable ''best_fit'' 100 spec_blocks = Some (2, MemoryBlock 310 120 False None)"
    by code_simp
  from allocate_replaces_chosen_block[OF a s] f s
  show ?thesis
    by (simp add: Process_def spec_state_def) (simp add: spec_blocks_def MemoryBlock_def)
qed

section \<open>Properties of the paging engine\<close>

lemma new_page_table_fold:
  "fold (\<lambda>i pt. pt(i \<mapsto> Page i False None False (disk i))) (map int [0..<k]) m p =
     (if 0 \<le> p \<and> p < int k then Some (Page p False None False (disk p)) else m p)"
  by (induction k arbitrary: p) auto

lemma new_page_table_eq:
  "new_page_table disk n p =
     (if 0 \<le> p \<and> p < n then Some (Page p False None False (disk p)) else None)"
  unfolding new_page_table_def new_page_table_fold by auto

lemma new_page_table_not_resident: "new_page_table disk n p = Some pg \<Longrightarrow> \<not> exists pg"
  by (auto simp: new_page_table_eq Page_def split: if_splits)

lemma free_frames_of_set:
  "f \<in> set (free_frames_of fs) \<longleftrightarrow> f < length fs \<and> fs ! f = None"
  by (force simp: free_frames_of_def in_set_enumerate_eq)

lemma free_frames_of_sorted: "sorted (free_frames_of fs) \<and> distinct (free_frames_of fs)"
proof -
  have "sorted (map fst (enumerate 0 fs))" "distinct (map fst (enumerate 0 fs))" by simp_all
  then show ?thesis
    unfolding free_frames_of_def by (simp only: sorted_filter distinct_map_filter)
qed

lemma take_free_frames_props:
  "sorted (take k (free_frames_of fs)) \<and> distinct (take k (free_frames_of fs)) \<and>
   (\<forall>f\<in>set (take k (free_frames_of fs)). f < length fs \<and> fs ! f = None)"
  using free_frames_of_sorted[of fs] free_frames_of_set[of _ fs]
  by (auto simp: sorted_wrt_take dest: in_set_takeD)

lemma free_frames_of_all:
  assumes "\<forall>f\<in>set fs. f = None"
  shows "length (free_frames_of fs) = length fs"
proof -
  have "filter (\<lambda>(i, frame). frame = None) (enumerate 0 fs) = enumerate 0 fs"
    using assms by (intro filter_True) (auto simp: in_set_enumerate_eq)
  then show ?thesis by (simp add: free_frames_of_def)
qed

lemma hpf_free:
  assumes "\<forall>f\<in>set (allocated_frames s). f < length (frames s)"
      and "free_allocated s = fno # rest"
  shows "handle_page_fault pno s =
           (Inr (Some fno, NoInfo),
            s\<lparr>frames := (frames s)[fno := Some pno], frame_queue := frame_queue s @ [fno]\<rparr>)"
  using assms by (auto simp: handle_page_fault_def free_allocated_def)

lemma hpf_queue_empty:
  assumes "\<forall>f\<in>set (allocated_frames s). f < length (frames s)"
      and "free_allocated s = []" and "frame_queue s = []"
  shows "handle_page_fault pno s = (Inr (None, QueueEmpty), s)"
  using assms by (auto simp: handle_page_fault_def free_allocated_def)

lemma hpf_key_error:
  assumes "\<forall>f\<in>set (allocated_frames s). f < length (frames s)"
      and "free_allocated s = []" and "frame_queue s = rf # q"
      and "rf < length (frames s)" and "frames s ! rf = Some rp" and "page_table s rp = None"
  shows "handle_page_fault pno s = (Inl KeyError, s\<lparr>frame_queue := q\<rparr>)"
  using assms by (auto simp: handle_page_fault_def free_allocated_def)

lemma hpf_evict:
  assumes "\<forall>f\<in>set (allocated_frames s). f < length (frames s)"
      and "free_allocated s = []" and "frame_queue s = rf # q"
      and "rf < length (frames s)" and "frames s ! rf = Some rp" and "page_table s rp = Some rpg"
  shows "handle_page_fault pno s =
           (Inr (Some rf, Evicted rp),
            s\<lparr>page_table := (page_table s)(rp \<mapsto> evict_page rpg),
               frames := (frames s)[rf := Some pno],
               frame_queue := q @ [rf]\<rparr>)"
  using assms by (auto simp: handle_page_fault_def free_allocated_def evict_page_def)

lemma acc_out_of_range:
  "page_table s pno = None \<Longrightarrow>
     access_memory pno offset operation s = (Inr (None, False, PageOutOfRange pno), s)"
  by (simp add: access_memory_def)

lemma acc_free:
  assumes "\<forall>f\<in>set (allocated_frames s). f < length (frames s)"
      and "free_allocated s = fno # rest"
      and "page_table s pno = Some pg" and "\<not> exists pg"
  shows "access_memory pno offset operation s =
           (Inr (Some (int fno * page_size s + offset), True, NoInfo),
            s\<lparr>frames := (frames s)[fno := Some pno], frame_queue := frame_queue s @ [fno],
               page_table := (page_table s)(pno \<mapsto> load_page pg fno operation)\<rparr>)"
  using assms(3,4) hpf_free[OF assms(1,2), of pno]
  by (simp add: access_memory_def load_page_def)

lemma acc_queue_empty:
  assumes "\<forall>f\<in>set (allocated_frames s). f < length (frames s)"
      and "free_allocated s = []" and "frame_queue s = []"
      and "page_table s pno = Some pg" and "\<not> exists pg"
  shows "access_memory pno offset operation s = (Inr (None, True, CannotLoadPage), s)"
  using assms(4,5) hpf_queue_empty[OF assms(1,2,3), of pno]
  by (simp add: access_memory_def)

lemma acc_key_error:
  assumes "\<forall>f\<in>set (allocated_frames s). f < length (frames s)"
      and "free_allocated s = []" and "frame_queue s = rf # q"
      and "rf < length (frames s)" and "frames s ! rf = Some rp" and "page_table s rp = None"
      and "page_table s pno = Some pg" and "\<not> exists pg"
  shows "access_memory pno offset operation s = (Inl KeyError, s\<lparr>frame_queue := q\<rparr>)"
  using assms(7,8) hpf_key_error[OF assms(1-6), of pno]
  by (simp add: access_memory_def)

lemma acc_evict:
  assumes "\<forall>f\<in>set (allocated_frames s). f < length (frames s)"
      and "free_allocated s = []" and "frame_queue s = rf # q"
      and "rf < length (frames s)" and "frames s ! rf = Some rp" and "page_table s rp = Some rpg"
      and "page_table s pno = Some pg" and "\<not> exists pg"
  shows "access_memory pno offset operation s =
           (Inr (Some (int rf * page_size s + offset), True, Evicted rp),
            s\<lparr>page_table := (page_table s)(rp \<mapsto> evict_page rpg, pno \<mapsto> load_page pg rf operation),
               frames := (frames s)[rf := Some pno],
               frame_queue := q @ [rf]\<rparr>)"
  using assms(7,8) hpf_evict[OF assms(1-6), of pno]
  by (simp add: access_memory_def load_page_def)

lemma acc_hit:
  assumes "page_table s pno = Some pg" and "exists pg" and "frame_no pg = Some fno"
  shows "access_memory pno offset operation s =
           (Inr (Some (int fno * page_size s + offset), False, NoInfo),
            if is_store operation
            then s\<lparr>page_table := (page_table s)(pno \<mapsto> pg\<lparr>modified := True\<rparr>)\<rparr> else s)"
  using assms by (simp add: access_memory_def)

lemma inv_free:
  assumes r: "resident_ok fs pt" and a: "allocated_ok fs pt al" and q: "queue_ok fs al qu"
      and pg: "pt pno = Some pg" "\<not> exists pg" and f: "fno \<in> set al" "fs ! fno = None"
  shows "resident_ok (fs[fno := Some pno]) (pt(pno \<mapsto> load_page pg fno operation)) \<and>
         allocated_ok (fs[fno := Some pno]) (pt(pno \<mapsto> load_page pg fno operation)) al \<and>
         queue_ok (fs[fno := Some pno]) al (qu @ [fno])"
proof (intro conjI)
  from a f(1) have len: "fno < length fs" by (simp add: allocated_ok_def)
  show "resident_ok (fs[fno := Some pno]) (pt(pno \<mapsto> load_page pg fno operation))"
    unfolding resident_ok_def
  proof (intro allI impI)
    fix p pg' assume h: "(pt(pno \<mapsto> load_page pg fno operation)) p = Some pg'" "exists pg'"
    show "\<exists>f. frame_no pg' = Some f \<and> f < length (fs[fno := Some pno]) \<and> fs[fno := Some pno] ! f = Some p"
    proof (cases "p = pno")
      case True
      with h len show ?thesis by (auto simp: load_page_def)
    next
      case False
      with h have "pt p = Some pg'" by simp
      with r h(2) obtain f' where f': "frame_no pg' = Some f'" "f' < length fs" "fs ! f' = Some p"
        by (auto simp: resident_ok_def)
      with f(2) have "f' \<noteq> fno" by auto
      with f' show ?thesis by auto
    qed
  qed
  show "allocated_ok (fs[fno := Some pno]) (pt(pno \<mapsto> load_page pg fno operation)) al"
    unfolding allocated_ok_def
  proof (intro ballI conjI allI impI)
    fix f' assume "f' \<in> set al"
    then show "f' < length (fs[fno := Some pno])" using a by (simp add: allocated_ok_def)
  next
    fix f' p assume h: "f' \<in> set al" "fs[fno := Some pno] ! f' = Some p"
    show "\<exists>pg'. (pt(pno \<mapsto> load_page pg fno operation)) p = Some pg' \<and> exists pg' \<and> frame_no pg' = Some f'"
    proof (cases "f' = fno")
      case True
      with h len show ?thesis by (auto simp: load_page_def)
    next
      case False
      with h have "fs ! f' = Some p" by simp
      with a h(1) obtain pg1 where pg1: "pt p = Some pg1" "exists pg1" "frame_no pg1 = Some f'"
        by (auto simp: allocated_ok_def)
      with pg have "p \<noteq> pno" by auto
      with pg1 show ?thesis by auto
    qed
  qed
  show "queue_ok (fs[fno := Some pno]) al (qu @ [fno])"
    using q f len unfolding queue_ok_def
    by (auto simp: nth_list_update)
qed

lemma inv_evict:
  assumes r: "resident_ok fs pt" and a: "allocated_ok fs pt al" and q: "queue_ok fs al (rf # qu)"
      and pg: "pt pno = Some pg" "\<not> exists pg" and rp: "fs ! rf = Some rp" "pt rp = Some rpg"
  shows "resident_ok (fs[rf := Some pno])
           (pt(rp \<mapsto> evict_page rpg, pno \<mapsto> load_page pg rf operation)) \<and>
         allocated_ok (fs[rf := Some pno])
           (pt(rp \<mapsto> evict_page rpg, pno \<mapsto> load_page pg rf operation)) al \<and>
         queue_ok (fs[rf := Some pno]) al (qu @ [rf])"
proof (intro conjI)
  let ?pt = "pt(rp \<mapsto> evict_page rpg, pno \<mapsto> load_page pg rf operation)"
  from q have len: "rf < length fs" by (simp add: queue_ok_def)
  show "resident_ok (fs[rf := Some pno]) ?pt"
    unfolding resident_ok_def
  proof (intro allI impI)
    fix p pg' assume h: "?pt p = Some pg'" "exists pg'"
    show "\<exists>f. frame_no pg' = Some f \<and> f < length (fs[rf := Some pno]) \<and> fs[rf := Some pno] ! f = Some p"
    proof (cases "p = pno")
      case True
      with h len show ?thesis by (auto simp: load_page_def)
    next
      case False
      with h have "p \<noteq> rp" by (auto simp: evict_page_def)
      with h False have "pt p = Some pg'" by simp
      with r h(2) obtain f' where f': "frame_no pg' = Some f'" "f' < length fs" "fs ! f' = Some p"
        by (auto simp: resident_ok_def)
      with rp(1) \<open>p \<noteq> rp\<close> have "f' \<noteq> rf" by auto
      with f' show ?thesis by auto
    qed
  qed
  show "allocated_ok (fs[rf := Some pno]) ?pt al"
    unfolding allocated_ok_def
  proof (intro ballI conjI allI impI)
    fix f' assume "f' \<in> set al"
    then show "f' < length (fs[rf := Some pno])" using a by (simp add: allocated_ok_def)
  next
    fix f' p assume h: "f' \<in> set al" "fs[rf := Some pno] ! f' = Some p"
    show "\<exists>pg'. ?pt p = Some pg' \<and> exists pg' \<and> frame_no pg' = Some f'"
    proof (cases "f' = rf")
      case True
      with h len show ?thesis by (auto simp: load_page_def)
    next
      case False
      with h have "fs ! f' = Some p" by simp
      with a h(1) obtain pg1 where pg1: "pt p = Some pg1" "exists pg1" "frame_no pg1 = Some f'"
        by (auto simp: allocated_ok_def)
      with pg have n1: "p \<noteq> pno" by auto
      from h(1) q have "rf \<in> set al" by (auto simp: queue_ok_def)
      with a rp(1) obtain pg2 where "pt rp = Some pg2" "frame_no pg2 = Some rf"
        by (auto simp: allocated_ok_def)
      with pg1 False have n2: "p \<noteq> rp" by auto
      from n1 n2 pg1 show ?thesis by auto
    qed
  qed
  show "queue_ok (fs[rf := Some pno]) al (qu @ [rf])"
    using q len unfolding queue_ok_def
    by (auto simp: nth_list_update)
qed

lemma inv_pop: "queue_ok fs al (rf # qu) \<Longrightarrow> queue_ok fs al qu"
  by (auto simp: queue_ok_def)

lemma inv_modified:
  assumes "resident_ok fs pt" and "allocated_ok fs pt al" and "pt pno = Some pg"
  shows "resident_ok fs (pt(pno \<mapsto> pg\<lparr>modified := True\<rparr>)) \<and>
         allocated_ok fs (pt(pno \<mapsto> pg\<lparr>modified := True\<rparr>)) al"
  using assms unfolding resident_ok_def allocated_ok_def
  by (auto split: if_splits)

lemma paging_inv_frames_valid:
  "paging_inv s \<Longrightarrow> \<forall>f\<in>set (allocated_frames s). f < length (frames s)"
  by (simp add: paging_inv_def allocated_ok_def)

lemma free_allocated_Cons:
  "free_allocated s = fno # rest \<Longrightarrow> fno \<in> set (allocated_frames s) \<and> frames s ! fno = None"
proof -
  assume "free_allocated s = fno # rest"
  then have "fno \<in> set (filter (\<lambda>f. frames s ! f = None) (allocated_frames s))"
    by (simp add: free_allocated_def)
  then show ?thesis by simp
qed

lemma access_memory_inv:
  assumes inv: "paging_inv s"
  shows "paging_inv (snd (access_memory pno offset operation s))"
proof (cases "page_table s pno")
  case None
  then show ?thesis using inv by (simp add: acc_out_of_range)
next
  case (Some pg)
  note val = paging_inv_frames_valid[OF inv]
  from inv have r: "resident_ok (frames s) (page_table s)"
    and a: "allocated_ok (frames s) (page_table s) (allocated_frames s)"
    and q: "queue_ok (frames s) (allocated_frames s) (frame_queue s)"
    and sd: "sorted (allocated_frames s)" "distinct (allocated_frames s)"
    by (simp_all add: paging_inv_def)
  show ?thesis
  proof (cases "exists pg")
    case True
    with r Some obtain fno where fno: "frame_no pg = Some fno" by (auto simp: resident_ok_def)
    from inv_modified[OF r a Some] q sd inv show ?thesis
      by (simp add: acc_hit[OF Some True fno] paging_inv_def)
  next
    case False
    show ?thesis
    proof (cases "free_allocated s")
      case (Cons fno rest)
      from free_allocated_Cons[OF Cons] have f: "fno \<in> set (allocated_frames s)" "frames s ! fno = None"
        by simp_all
      from inv_free[OF r a q Some False f, of operation] sd show ?thesis
        by (simp add: acc_free[OF val Cons Some False] paging_inv_def)
    next
      case Nil
      show ?thesis
      proof (cases "frame_queue s")
        case qe: Nil
        then show ?thesis using inv by (simp add: acc_queue_empty[OF val Nil qe Some False])
      next
        case (Cons rf qu)
        with q have rf: "rf < length (frames s)" "frames s ! rf \<noteq> None" by (auto simp: queue_ok_def)
        then obtain rp where rp: "frames s ! rf = Some rp" by auto
        from q Cons have q': "queue_ok (frames s) (allocated_frames s) (rf # qu)" by simp
        show ?thesis
        proof (cases "page_table s rp")
          case pn: None
          from inv_pop[OF q'] r a sd show ?thesis
            by (simp add: acc_key_error[OF val Nil Cons rf(1) rp pn Some False] paging_inv_def)
        next
          case (Some rpg)
          from inv_evict[OF r a q' \<open>page_table s pno = Some pg\<close> False rp Some, of operation] sd
          show ?thesis
            by (simp add: acc_evict[OF val Nil Cons rf(1) rp Some \<open>page_table s pno = Some pg\<close> False]
                paging_inv_def)
        qed
      qed
    qed
  qed
qed

lemma create_job_cases:
  assumes "create_job jid job_sz cnt disk s = (r, s')"
  shows "(r \<in> {JobTooLarge, InsufficientFrames, JobRaised ZeroDivisionError} \<and> s' = s) \<or>
         (r = OutOfFrames \<and> cnt \<le> total_frames s \<and> int (length (free_frames_of (frames s))) < cnt \<and>
          s' = s\<lparr>page_table := new_page_table disk ((job_sz + page_size s - 1) div page_size s),
                 allocated_frames := []\<rparr>) \<or>
         (r = JobCreated \<and> job_sz \<le> max_job_size s \<and> cnt \<le> total_frames s \<and>
          s' = s\<lparr>page_table := new_page_table disk ((job_sz + page_size s - 1) div page_size s),
                 allocated_frames := take (nat cnt) (free_frames_of (frames s)),
                 current_job := Some \<lparr>job_id = jid, job_size = job_sz,
                                      pages_count = (job_sz + page_size s - 1) div page_size s,
                                      allocated_frames_count = cnt\<rparr>,
                 frame_queue := []\<rparr>)"
  using assms by (auto simp: create_job_def Let_def split: if_splits)

lemma resident_ok_new: "resident_ok fs (new_page_table disk n)"
  using new_page_table_not_resident by (auto simp: resident_ok_def)

lemma create_job_inv:
  assumes inv: "paging_inv s"
  shows "paging_inv (snd (create_job jid job_sz cnt disk s))"
proof -
  obtain r s' where c: "create_job jid job_sz cnt disk s = (r, s')"
    by (cases "create_job jid job_sz cnt disk s")
  from create_job_cases[OF c] have "paging_inv s'"
  proof (elim disjE conjE)
    assume "s' = s" with inv show ?thesis by simp
  next
    assume "s' = s\<lparr>page_table := new_page_table disk ((job_sz + page_size s - 1) div page_size s),
                 allocated_frames := []\<rparr>"
    with inv show ?thesis
      by (simp add: paging_inv_def resident_ok_new) (simp add: allocated_ok_def queue_ok_def)
  next
    assume s': "s' = s\<lparr>page_table := new_page_table disk ((job_sz + page_size s - 1) div page_size s),
                 allocated_frames := take (nat cnt) (free_frames_of (frames s)),
                 current_job := Some \<lparr>job_id = jid, job_size = job_sz,
                                      pages_count = (job_sz + page_size s - 1) div page_size s,
                                      allocated_frames_count = cnt\<rparr>,
                 frame_queue := []\<rparr>"
    from take_free_frames_props[of "nat cnt" "frames s"] show ?thesis
      unfolding s' by (simp add: paging_inv_def resident_ok_new) (simp add: allocated_ok_def queue_ok_def)
  qed
  with c show ?thesis by simp
qed

lemma paging_step_inv: "paging_inv s \<Longrightarrow> paging_inv (paging_step s c)"
  by (cases c) (simp_all add: create_job_inv access_memory_inv)

lemma run_paging_inv: "paging_inv s \<Longrightarrow> paging_inv (run_paging calls s)"
  unfolding run_paging_def by (induction calls arbitrary: s) (simp_all add: paging_step_inv)

lemma DynamicPaging_inv: "DynamicPaging m ps mj = Inr s0 \<Longrightarrow> paging_inv s0"
  by (auto simp: DynamicPaging_def paging_inv_def resident_ok_def allocated_ok_def queue_ok_def
      split: if_splits)

lemma access_memory_queue_full:
  assumes inv: "paging_inv s" and qf: "queue_full s"
  shows "queue_full (snd (access_memory pno offset operation s))"
proof (cases "page_table s pno")
  case None
  then show ?thesis using qf by (simp add: acc_out_of_range)
next
  case (Some pg)
  note val = paging_inv_frames_valid[OF inv]
  from inv have r: "resident_ok (frames s) (page_table s)"
    and a: "allocated_ok (frames s) (page_table s) (allocated_frames s)"
    and q: "queue_ok (frames s) (allocated_frames s) (frame_queue s)"
    by (simp_all add: paging_inv_def)
  show ?thesis
  proof (cases "exists pg")
    case True
    with r Some obtain fno where fno: "frame_no pg = Some fno" by (auto simp: resident_ok_def)
    from qf show ?thesis
      by (simp add: acc_hit[OF Some True fno] queue_full_def)
  next
    case False
    show ?thesis
    proof (cases "free_allocated s")
      case (Cons fno rest)
      from free_allocated_Cons[OF Cons] have f: "fno \<in> set (allocated_frames s)" "frames s ! fno = None"
        by simp_all
      with val have "fno < length (frames s)" by simp
      with qf f show ?thesis
        by (auto simp: acc_free[OF val Cons Some False] queue_full_def nth_list_update)
    next
      case Nil
      show ?thesis
      proof (cases "frame_queue s")
        case qe: Nil
        then show ?thesis using qf by (simp add: acc_queue_empty[OF val Nil qe Some False])
      next
        case (Cons rf qu)
        with q have rf: "rf < length (frames s)" "frames s ! rf \<noteq> None" by (auto simp: queue_ok_def)
        then obtain rp where rp: "frames s ! rf = Some rp" by auto
        from qf Cons have "rf \<in> set (allocated_frames s)" by (auto simp: queue_full_def)
        with a rp obtain rpg where rpg: "page_table s rp = Some rpg" by (auto simp: allocated_ok_def)
        from qf Cons rf show ?thesis
          by (auto simp: acc_evict[OF val Nil Cons rf(1) rp rpg Some False] queue_full_def nth_list_update)
      qed
    qed
  qed
qed

lemma create_job_queue_full:
  assumes qf: "queue_full s" and "fst (create_job jid job_sz cnt disk s) \<noteq> OutOfFrames"
  shows "queue_full (snd (create_job jid job_sz cnt disk s))"
proof -
  obtain r s' where c: "create_job jid job_sz cnt disk s = (r, s')"
    by (cases "create_job jid job_sz cnt disk s")
  with assms(2) have "r \<noteq> OutOfFrames" by simp
  with create_job_cases[OF c] have "queue_full s'"
  proof (elim disjE conjE)
    assume "s' = s" with qf show ?thesis by simp
  next
    assume s': "s' = s\<lparr>page_table := new_page_table disk ((job_sz + page_size s - 1) div page_size s),
                 allocated_frames := take (nat cnt) (free_frames_of (frames s)),
                 current_job := Some \<lparr>job_id = jid, job_size = job_sz,
                                      pages_count = (job_sz + page_size s - 1) div page_size s,
                                      allocated_frames_count = cnt\<rparr>,
                 frame_queue := []\<rparr>"
    from take_free_frames_props[of "nat cnt" "frames s"] show ?thesis
      unfolding s' by (auto simp: queue_full_def)
  qed simp
  with c show ?thesis by simp
qed

lemma run_paging_clean:
  "paging_inv s \<Longrightarrow> queue_full s \<Longrightarrow> no_out_of_frames calls s \<Longrightarrow>
     queue_full (run_paging calls s)"
proof (induction calls arbitrary: s)
  case Nil
  then show ?case by (simp add: run_paging_def)
next
  case (Cons c calls)
  have "queue_full (paging_step s c)"
  proof (cases c)
    case (CreateJob jid job_sz cnt disk)
    with Cons.prems(3) have "fst (create_job jid job_sz cnt disk s) \<noteq> OutOfFrames" by simp
    from create_job_queue_full[OF Cons.prems(2) this] CreateJob show ?thesis by simp
  next
    case (AccessMemory pno offset operation)
    with access_memory_queue_full[OF Cons.prems(1,2)] show ?thesis by simp
  qed
  from Cons.IH[OF paging_step_inv[OF Cons.prems(1)] this] Cons.prems(3)
  show ?case by (simp add: run_paging_def)
qed

lemma DynamicPaging_queue_full: "DynamicPaging m ps mj = Inr s0 \<Longrightarrow> queue_full s0"
  by (auto simp: DynamicPaging_def queue_full_def split: if_splits)

lemma sorted_hd_Min: "sorted xs \<Longrightarrow> xs \<noteq> [] \<Longrightarrow> hd xs = Min (set xs)"
  by (cases xs) (auto intro!: Min_eqI[symmetric])

lemma free_allocated_lowest:
  assumes "sorted (allocated_frames s)" and "free_allocated s \<noteq> []"
  shows "hd (free_allocated s) = Min (set (free_allocated s))"
proof -
  have "sorted (free_allocated s)"
    unfolding free_allocated_def using assms(1) by (rule sorted_wrt_filter)
  from sorted_hd_Min[OF this assms(2)] show ?thesis .
qed

lemma fault_step:
  assumes inv: "paging_inv s" and qf: "queue_full s"
      and pg: "page_table s pno = Some pg" "\<not> exists pg"
  shows "(free_allocated s \<noteq> [] \<longrightarrow>
            access_memory pno offset operation s =
              (Inr (Some (int (Min (set (free_allocated s))) * page_size s + offset), True, NoInfo),
               s\<lparr>frames := (frames s)[Min (set (free_allocated s)) := Some pno],
                  frame_queue := frame_queue s @ [Min (set (free_allocated s))],
                  page_table := (page_table s)(pno \<mapsto>
                     load_page pg (Min (set (free_allocated s))) operation)\<rparr>)) \<and>
         (free_allocated s = [] \<and> frame_queue s \<noteq> [] \<longrightarrow>
            (\<exists>rp rpg. frames s ! hd (frame_queue s) = Some rp \<and> page_table s rp = Some rpg \<and>
               exists rpg \<and> rp \<noteq> pno \<and>
               access_memory pno offset operation s =
                 (Inr (Some (int (hd (frame_queue s)) * page_size s + offset), True, Evicted rp),
                  s\<lparr>page_table := (page_table s)(rp \<mapsto> evict_page rpg,
                                       pno \<mapsto> load_page pg (hd (frame_queue s)) operation),
                     frames := (frames s)[hd (frame_queue s) := Some pno],
                     frame_queue := tl (frame_queue s) @ [hd (frame_queue s)]\<rparr>))) \<and>
         (free_allocated s = [] \<and> frame_queue s = [] \<longrightarrow>
            allocated_frames s = [] \<and>
            access_memory pno offset operation s = (Inr (None, True, CannotLoadPage), s))"
proof (intro conjI impI)
  note val = paging_inv_frames_valid[OF inv]
  from inv have a: "allocated_ok (frames s) (page_table s) (allocated_frames s)"
    and q: "queue_ok (frames s) (allocated_frames s) (frame_queue s)"
    and sd: "sorted (allocated_frames s)"
    by (simp_all add: paging_inv_def)
  {
    assume ne: "free_allocated s \<noteq> []"
    then obtain fno rest where c: "free_allocated s = fno # rest" by (cases "free_allocated s") auto
    from free_allocated_lowest[OF sd ne] c have "fno = Min (set (free_allocated s))" by simp
    with acc_free[OF val c pg, of offset operation]
    show "access_memory pno offset operation s =
              (Inr (Some (int (Min (set (free_allocated s))) * page_size s + offset), True, NoInfo),
               s\<lparr>frames := (frames s)[Min (set (free_allocated s)) := Some pno],
                  frame_queue := frame_queue s @ [Min (set (free_allocated s))],
                  page_table := (page_table s)(pno \<mapsto>
                     load_page pg (Min (set (free_allocated s))) operation)\<rparr>)"
      by simp
  }
  {
    assume h: "free_allocated s = [] \<and> frame_queue s \<noteq> []"
    then obtain rf qu where c: "frame_queue s = rf # qu" by (cases "frame_queue s") auto
    with q have rf: "rf < length (frames s)" "frames s ! rf \<noteq> None" by (auto simp: queue_ok_def)
    then obtain rp where rp: "frames s ! rf = Some rp" by auto
    from qf c have "rf \<in> set (allocated_frames s)" by (auto simp: queue_full_def)
    with a rp obtain rpg where rpg: "page_table s rp = Some rpg" "exists rpg"
      by (auto simp: allocated_ok_def)
    with pg have "rp \<noteq> pno" by auto
    with acc_evict[OF val _ c rf(1) rp rpg(1) pg, of offset operation] h c rp rpg
    show "\<exists>rp rpg. frames s ! hd (frame_queue s) = Some rp \<and> page_table s rp = Some rpg \<and>
               exists rpg \<and> rp \<noteq> pno \<and>
               access_memory pno offset operation s =
                 (Inr (Some (int (hd (frame_queue s)) * page_size s + offset), True, Evicted rp),
                  s\<lparr>page_table := (page_table s)(rp \<mapsto> evict_page rpg,
                                       pno \<mapsto> load_page pg (hd (frame_queue s)) operation),
                     frames := (frames s)[hd (frame_queue s) := Some pno],
                     frame_queue := tl (frame_queue s) @ [hd (frame_queue s)]\<rparr>)"
      by simp
  }
  {
    assume h: "free_allocated s = [] \<and> frame_queue s = []"
    with acc_queue_empty[OF val _ _ pg, of offset operation]
    show "access_memory pno offset operation s = (Inr (None, True, CannotLoadPage), s)" by simp
    from h qf have "\<forall>f\<in>set (allocated_frames s). frames s ! f = None"
      by (auto simp: queue_full_def)
    with h show "allocated_frames s = []"
      by (auto simp: free_allocated_def filter_empty_conv)
  }
qed

lemma small_engine_init: "DynamicPaging 4 1 4 = Inr small_engine"
  by (simp add: DynamicPaging_def small_engine_def eval_nat_numeral)

lemma hpf_Evicted:
  assumes "handle_page_fault pno s = (Inr (fr, Evicted rp), s1)"
  shows "\<exists>rf qu rpg. frame_queue s = rf # qu \<and> fr = Some rf \<and> frames s ! rf = Some rp \<and>
           page_table s rp = Some rpg \<and>
           s1 = s\<lparr>page_table := (page_table s)(rp \<mapsto> evict_page rpg),
                  frames := (frames s)[rf := Some pno],
                  frame_queue := qu @ [rf]\<rparr>"
  using assms unfolding handle_page_fault_def Let_def evict_page_def
  by (auto split: if_splits list.splits option.splits)

lemma acc_Evicted:
  assumes "access_memory pno offset operation s = (Inr (addr, fault, Evicted rp), s')"
  shows "\<exists>pg fr s1. page_table s pno = Some pg \<and> \<not> exists pg \<and>
           handle_page_fault pno s = (Inr (Some fr, Evicted rp), s1) \<and>
           addr = Some (int fr * page_size s + offset) \<and> fault \<and>
           s' = s1\<lparr>page_table := (page_table s1)(pno \<mapsto> load_page pg fr operation)\<rparr>"
  using assms unfolding access_memory_def Let_def load_page_def
  by (auto split: if_splits option.splits sum.splits prod.splits)

text \<open>
  Claim C9. When \<open>access_memory\<close> reports a page as evicted, the fault handler has changed
  that page's entry in the resident flag and the frame number only; the entry after the
  call is the old one with these two fields cleared (when the evicted page is not the
  requested one, as always in C3), and a page that was modified before is still modified
  in the page table afterwards.
\<close>

theorem eviction_keeps_dirty_flag:
  assumes "access_memory pno offset operation s = (Inr (addr, fault, Evicted rp), s')"
  shows "\<exists>rpg. page_table s rp = Some rpg \<and>
           page_table (snd (handle_page_fault pno s)) rp =
             Some (rpg\<lparr>exists := False, frame_no := None\<rparr>) \<and>
           (rp \<noteq> pno \<longrightarrow> page_table s' rp = Some (rpg\<lparr>exists := False, frame_no := None\<rparr>)) \<and>
           (\<exists>pg'. page_table s' rp = Some pg' \<and> (modified rpg \<longrightarrow> modified pg'))"
proof -
  from acc_Evicted[OF assms] obtain pg fr s1 where
    a: "page_table s pno = Some pg" "handle_page_fault pno s = (Inr (Some fr, Evicted rp), s1)"
       "s' = s1\<lparr>page_table := (page_table s1)(pno \<mapsto> load_page pg fr operation)\<rparr>"
    by blast
  from hpf_Evicted[OF a(2)] obtain rf qu rpg where
    h: "page_table s rp = Some rpg"
       "s1 = s\<lparr>page_table := (page_table s)(rp \<mapsto> evict_page rpg),
                frames := (frames s)[rf := Some pno], frame_queue := qu @ [rf]\<rparr>"
    by blast
  have 1: "page_table (snd (handle_page_fault pno s)) rp =
             Some (rpg\<lparr>exists := False, frame_no := None\<rparr>)"
    by (simp add: a(2) h(2) evict_page_def)
  have 2: "rp \<noteq> pno \<longrightarrow> page_table s' rp = Some (rpg\<lparr>exists := False, frame_no := None\<rparr>)"
    by (simp add: a(3) h(2) evict_page_def)
  have 3: "\<exists>pg'. page_table s' rp = Some pg' \<and> (modified rpg \<longrightarrow> modified pg')"
  proof (cases "rp = pno")
    case True
    with a(1) h(1) have "pg = rpg" by simp
    with True show ?thesis by (simp add: a(3) h(2) load_page_def)
  next
    case False
    then show ?thesis by (simp add: a(3) h(2) evict_page_def)
  qed
  from h(1) 1 2 3 show ?thesis by blast
qed

lemma one_frame_job_state:
  "frames one_frame_job = [Some 0, None, None, None]"
  "allocated_frames one_frame_job = [0]"
  "frame_queue one_frame_job = [0]"
  "page_size one_frame_job = 1024"
  "page_table one_frame_job 0 = Some (Page 0 True (Some 0) True ''000'')"
  "page_table one_frame_job 1 = Some (Page 1 False None False ''000'')"
  by code_simp+

text \<open>
  Page 0 was stored to and is then replaced by page 1: its entry stays modified.
\<close>

theorem eviction_keeps_dirty_flag_witness:
  "fst (access_memory 1 7 ''load'' one_frame_job) = Inr (Some 7, True, Evicted 0) \<and>
   page_table one_frame_job 0 = Some (Page 0 True (Some 0) True ''000'') \<and>
   page_table (snd (access_memory 1 7 ''load'' one_frame_job)) 0 =
     Some (Page 0 False None True ''000'')"
proof -
  have r: "fst (access_memory 1 7 ''load'' one_frame_job) = Inr (Some 7, True, Evicted 0)"
    by code_simp
  then have a: "access_memory 1 7 ''load'' one_frame_job =
      (Inr (Some 7, True, Evicted 0), snd (access_memory 1 7 ''load'' one_frame_job))"
    by (metis prod.collapse)
  from eviction_keeps_dirty_flag[OF a] one_frame_job_state(5) r
  show ?thesis by (simp add: Page_def)
qed

lemma create_job_consts:
  "page_size (snd (create_job jid job_sz cnt disk s)) = page_size s \<and>
   max_job_size (snd (create_job jid job_sz cnt disk s)) = max_job_size s \<and>
   total_frames (snd (create_job jid job_sz cnt disk s)) = total_frames s"
  by (simp add: create_job_def Let_def)

lemma handle_page_fault_consts:
  "page_size (snd (handle_page_fault pno s)) = page_size s \<and>
   max_job_size (snd (handle_page_fault pno s)) = max_job_size s \<and>
   total_frames (snd (handle_page_fault pno s)) = total_frames s"
  by (simp add: handle_page_fault_def Let_def split: list.splits option.splits)

lemma access_memory_consts:
  "page_size (snd (access_memory pno offset operation s)) = page_size s \<and>
   max_job_size (snd (access_memory pno offset operation s)) = max_job_size s \<and>
   total_frames (snd (access_memory pno offset operation s)) = total_frames s"
proof (cases "handle_page_fault pno s")
  case (Pair r s1)
  with handle_page_fault_consts[of pno s]
  have "page_size s1 = page_size s" "max_job_size s1 = max_job_size s"
       "total_frames s1 = total_frames s" by simp_all
  with Pair show ?thesis
    by (simp add: access_memory_def Let_def split: option.splits sum.splits prod.splits)
qed

lemma run_paging_consts:
  "page_size (run_paging calls s) = page_size s \<and>
   max_job_size (run_paging calls s) = max_job_size s \<and>
   total_frames (run_paging calls s) = total_frames s"
proof (induction calls arbitrary: s)
  case Nil
  then show ?case by (simp add: run_paging_def)
next
  case (Cons c calls)
  have "page_size (paging_step s c) = page_size s \<and>
        max_job_size (paging_step s c) = max_job_size s \<and>
        total_frames (paging_step s c) = total_frames s"
    by (cases c) (simp_all add: create_job_consts access_memory_consts)
  with Cons[of "paging_step s c"] show ?case by (simp add: run_paging_def)
qed

lemma DynamicPaging_page_size: "DynamicPaging m ps mj = Inr s0 \<Longrightarrow> page_size s0 \<noteq> 0"
  by (auto simp: DynamicPaging_def split: if_splits)

lemma zero_frame_state:
  assumes ps: "page_size s \<noteq> 0" and ok: "job_sz \<le> max_job_size s" "0 \<le> total_frames s"
      and va: "\<forall>f\<in>set (allocated_frames s). f < length (frames s)"
  shows "\<exists>s'. create_job jid job_sz 0 disk s = (JobCreated, s') \<and>
           allocated_frames s' = [] \<and> frame_queue s' = [] \<and>
           (\<forall>pno pg. page_table s' pno = Some pg \<longrightarrow> \<not> exists pg)"
  using assms new_page_table_not_resident
  by (auto simp: create_job_def Let_def)

lemma zero_frame_access:
  assumes "allocated_frames s' = []" and "frame_queue s' = []"
      and "\<forall>pno pg. page_table s' pno = Some pg \<longrightarrow> \<not> exists pg"
  shows "(page_table s' pno \<noteq> None \<longrightarrow>
            access_memory pno offset operation s' = (Inr (None, True, CannotLoadPage), s')) \<and>
         snd (access_memory pno offset operation s') = s'"
proof (cases "page_table s' pno")
  case None
  then show ?thesis by (simp add: acc_out_of_range)
next
  case (Some pg)
  with assms(3) have ne: "\<not> exists pg" by simp
  have "access_memory pno offset operation s' = (Inr (None, True, CannotLoadPage), s')"
    using assms(1,2) by (intro acc_queue_empty[OF _ _ _ Some ne]) (simp_all add: free_allocated_def)
  then show ?thesis by simp
qed

lemma zero_frame_run:
  assumes "allocated_frames s' = []" and "frame_queue s' = []"
      and "\<forall>pno pg. page_table s' pno = Some pg \<longrightarrow> \<not> exists pg"
  shows "\<forall>c\<in>set accesses. is_access c \<Longrightarrow> run_paging accesses s' = s'"
proof (induction accesses)
  case Nil
  then show ?case by (simp add: run_paging_def)
next
  case (Cons c accesses)
  then obtain pno offset operation where c: "c = AccessMemory pno offset operation"
    by (cases c) auto
  with zero_frame_access[OF assms, of pno offset operation] have "paging_step s' c = s'" by simp
  with Cons show ?case by (simp add: run_paging_def)
qed

text \<open>
  Claim C10. In every reachable state \<open>create_job\<close> with a frame count of 0 succeeds when the
  job size is within the maximum and the total number of frames is not negative. In the
  resulting state every page of the page table is non-resident, every access to one
  returns no physical address with the page-fault flag set, and no sequence of accesses
  changes the page table, the frame table or the FIFO queue.
\<close>

theorem zero_frame_job:
  assumes "DynamicPaging m ps mj = Inr s0" and "s = run_paging calls s0"
      and "job_sz \<le> max_job_size s" and "0 \<le> total_frames s"
  shows "\<exists>s'. create_job jid job_sz 0 disk s = (JobCreated, s') \<and>
           (\<forall>pno offset operation. page_table s' pno \<noteq> None \<longrightarrow>
              (\<exists>pg. page_table s' pno = Some pg \<and> \<not> exists pg) \<and>
              access_memory pno offset operation s' = (Inr (None, True, CannotLoadPage), s')) \<and>
           (\<forall>accesses. (\<forall>c\<in>set accesses. is_access c) \<longrightarrow> run_paging accesses s' = s')"
proof -
  have ps: "page_size s \<noteq> 0"
    using DynamicPaging_page_size[OF assms(1)] run_paging_consts[of calls s0] assms(2) by simp
  have "paging_inv s" using run_paging_inv[OF DynamicPaging_inv[OF assms(1)]] assms(2) by simp
  from zero_frame_state[OF ps assms(3,4) paging_inv_frames_valid[OF this], of jid disk]
  obtain s' where s': "create_job jid job_sz 0 disk s = (JobCreated, s')"
    "allocated_frames s' = []" "frame_queue s' = []"
    "\<forall>pno pg. page_table s' pno = Some pg \<longrightarrow> \<not> exists pg" by blast
  have "\<forall>pno offset operation. page_table s' pno \<noteq> None \<longrightarrow>
              (\<exists>pg. page_table s' pno = Some pg \<and> \<not> exists pg) \<and>
              access_memory pno offset operation s' = (Inr (None, True, CannotLoadPage), s')"
    using zero_frame_access[OF s'(2,3,4)] s'(4) by auto
  moreover have "\<forall>accesses. (\<forall>c\<in>set accesses. is_access c) \<longrightarrow> run_paging accesses s' = s'"
    using zero_frame_run[OF s'(2,3,4)] by blast
  ultimately show ?thesis using s'(1) by blast
qed

text \<open>
  A job of two pages and no frames on the fresh engine of four frames.
\<close>

theorem zero_frame_job_witness:
  "DynamicPaging 4 1 4 = Inr small_engine \<and> small_engine = run_paging [] small_engine \<and>
   2048 \<le> max_job_size small_engine \<and> 0 \<le> total_frames small_engine \<and>
   fst (create_job ''Z'' 2048 0 no_tags small_engine) = JobCreated \<and>
   page_table zero_frame_engine 1 = Some (Page 1 False None False ''000'') \<and>
   access_memory 1 9 ''save'' zero_frame_engine = (Inr (None, True, CannotLoadPage), zero_frame_engine) \<and>
   run_paging [AccessMemory 0 3 ''load'', AccessMemory 1 9 ''save''] zero_frame_engine =
     zero_frame_engine"
proof -
  have h: "small_engine = run_paging [] small_engine" by (simp add: run_paging_def)
  have m: "2048 \<le> max_job_size small_engine" "0 \<le> total_frames small_engine"
    by (simp_all add: small_engine_def)
  have p: "page_table zero_frame_engine 1 = Some (Page 1 False None False ''000'')" by code_simp
  from zero_frame_job[OF small_engine_init h m, of "''Z''" no_tags]
  obtain s' where s': "create_job ''Z'' 2048 0 no_tags small_engine = (JobCreated, s')"
    "\<forall>pno offset operation. page_table s' pno \<noteq> None \<longrightarrow>
        (\<exists>pg. page_table s' pno = Some pg \<and> \<not> exists pg) \<and>
        access_memory pno offset operation s' = (Inr (None, True, CannotLoadPage), s')"
    "\<forall>accesses. (\<forall>c\<in>set accesses. is_access c) \<longrightarrow> run_paging accesses s' = s'"
    by blast
  from s'(1) have e: "s' = zero_frame_engine" by (simp add: zero_frame_engine_def)
  from s'(2) p e have a: "access_memory 1 9 ''save'' zero_frame_engine =
     (Inr (None, True, CannotLoadPage), zero_frame_engine)" by simp
  from s'(3) e have r: "run_paging [AccessMemory 0 3 ''load'', AccessMemory 1 9 ''save''] zero_frame_engine =
     zero_frame_engine" by simp
  from small_engine_init h m s'(1) p a r show ?thesis by simp
qed

lemma resident_okD:
  "resident_ok fs pt \<Longrightarrow> pt p = Some pg \<Longrightarrow> exists pg \<Longrightarrow> frame_no pg = Some f \<Longrightarrow>
     fs ! f = Some p"
  unfolding resident_ok_def by (metis option.inject)

text \<open>
  Claim C2, as stated, fails: \<open>create_job\<close> never empties the frame table, so after a
  second job has been created frame 0 still holds page number 0 of the first job, while
  the entry of page 0 in the new page table is not resident.
\<close>

theorem stale_frame_counterexample:
  "DynamicPaging 4 1 4 = Inr small_engine \<and>
   frames two_jobs ! 0 = Some 0 \<and>
   page_table two_jobs 0 = Some (Page 0 False None False ''000'') \<and>
   allocated_frames two_jobs = [1]"
proof -
  have "frames two_jobs ! 0 = Some 0"
       "page_table two_jobs 0 = Some (Page 0 False None False ''000'')"
       "allocated_frames two_jobs = [1]"
    by code_simp+
  with small_engine_init show ?thesis by simp
qed

text \<open>
  Claim C2, amended. In every state reached from a fresh engine by calls of \<open>create_job\<close>
  and \<open>access_memory\<close>, each frame index occurs at most once in the FIFO queue; every
  resident page has a frame number whose frame slot holds that page's number; and every
  frame slot of the current job's allocated-frame list that holds a page number \<open>p\<close> is the
  frame of the resident page-table entry of \<open>p\<close>. Frame slots outside the allocated-frame
  list may keep page numbers of an earlier job.
\<close>

theorem paging_invariant_reachable:
  assumes "DynamicPaging m ps mj = Inr s0"
  shows "distinct (frame_queue (run_paging calls s0)) \<and>
         resident_ok (frames (run_paging calls s0)) (page_table (run_paging calls s0)) \<and>
         allocated_ok (frames (run_paging calls s0)) (page_table (run_paging calls s0))
           (allocated_frames (run_paging calls s0))"
  using run_paging_inv[OF DynamicPaging_inv[OF assms], of calls]
  by (simp add: paging_inv_def queue_ok_def)

text \<open>
  One frame, two pages: after page 1 has replaced page 0 the queue is \<open>[0]\<close> and frame 0
  holds page 1.
\<close>

theorem paging_invariant_reachable_witness:
  "DynamicPaging 4 1 4 = Inr small_engine \<and>
   frame_queue (run_paging evict_calls small_engine) = [0] \<and>
   distinct (frame_queue (run_paging evict_calls small_engine)) \<and>
   page_table (run_paging evict_calls small_engine) 1 = Some (Page 1 True (Some 0) False ''000'') \<and>
   frames (run_paging evict_calls small_engine) ! 0 = Some 1"
proof -
  have q: "frame_queue (run_paging evict_calls small_engine) = [0]" by code_simp
  have p: "page_table (run_paging evict_calls small_engine) 1 = Some (Page 1 True (Some 0) False ''000'')"
    by code_simp
  from paging_invariant_reachable[OF small_engine_init, of evict_calls]
  have d: "distinct (frame_queue (run_paging evict_calls small_engine))"
    and r: "resident_ok (frames (run_paging evict_calls small_engine))
              (page_table (run_paging evict_calls small_engine))" by simp_all
  have "frames (run_paging evict_calls small_engine) ! 0 = Some 1"
    by (rule resident_okD[OF r p]) (simp_all add: Page_def)
  with small_engine_init q d p show ?thesis by simp
qed

text \<open>
  Claim C3, as stated, fails: for a job created with no frames an access to a non-resident
  page finds no empty allocated frame and an empty FIFO queue, and returns no physical
  address.
\<close>

theorem zero_frames_fault_counterexample:
  "DynamicPaging 4 1 4 = Inr small_engine \<and>
   fst (create_job ''Z'' 2048 0 no_tags small_engine) = JobCreated \<and>
   page_table zero_frame_engine 0 = Some (Page 0 False None False ''000'') \<and>
   fst (access_memory 0 5 ''load'' zero_frame_engine) = Inr (None, True, CannotLoadPage)"
proof -
  have "fst (create_job ''Z'' 2048 0 no_tags small_engine) = JobCreated"
       "page_table zero_frame_engine 0 = Some (Page 0 False None False ''000'')"
       "fst (access_memory 0 5 ''load'' zero_frame_engine) = Inr (None, True, CannotLoadPage)"
    by code_simp+
  with small_engine_init show ?thesis by simp
qed

text \<open>
  Claim C3, amended. In a state reached from a fresh engine by calls none of which is a
  \<open>create_job\<close> refused for lack of empty frames, an access to a non-resident page of the
  page table does the following. If some allocated frame is empty, the lowest-indexed one
  receives the page and is appended to the FIFO queue, and nothing is evicted. Otherwise,
  if the FIFO queue is not empty, its oldest frame is popped; the page held there, which
  is resident and differs from the requested one, becomes non-resident with its frame
  number cleared and is reported as evicted; the requested page is mapped into that frame
  and the frame is appended to the queue. In both cases the result is a page fault with
  physical address \<open>frame_no * page_size + offset\<close>, and the page's modified flag is set for
  a store operation. Otherwise the job has no allocated frame and no address is returned.
\<close>

theorem page_fault_handling:
  assumes "DynamicPaging m ps mj = Inr s0" and "no_out_of_frames calls s0"
      and "s = run_paging calls s0"
      and "page_table s pno = Some pg" and "\<not> exists pg"
  shows "(free_allocated s \<noteq> [] \<longrightarrow>
            access_memory pno offset operation s =
              (Inr (Some (int (Min (set (free_allocated s))) * page_size s + offset), True, NoInfo),
               s\<lparr>frames := (frames s)[Min (set (free_allocated s)) := Some pno],
                  frame_queue := frame_queue s @ [Min (set (free_allocated s))],
                  page_table := (page_table s)(pno \<mapsto>
                     load_page pg (Min (set (free_allocated s))) operation)\<rparr>)) \<and>
         (free_allocated s = [] \<and> frame_queue s \<noteq> [] \<longrightarrow>
            (\<exists>rp rpg. frames s ! hd (frame_queue s) = Some rp \<and> page_table s rp = Some rpg \<and>
               exists rpg \<and> rp \<noteq> pno \<and>
               access_memory pno offset operation s =
                 (Inr (Some (int (hd (frame_queue s)) * page_size s + offset), True, Evicted rp),
                  s\<lparr>page_table := (page_table s)(rp \<mapsto> evict_page rpg,
                                       pno \<mapsto> load_page pg (hd (frame_queue s)) operation),
                     frames := (frames s)[hd (frame_queue s) := Some pno],
                     frame_queue := tl (frame_queue s) @ [hd (frame_queue s)]\<rparr>))) \<and>
         (free_allocated s = [] \<and> frame_queue s = [] \<longrightarrow>
            allocated_frames s = [] \<and>
            access_memory pno offset operation s = (Inr (None, True, CannotLoadPage), s))"
proof -
  have inv: "paging_inv s"
    using run_paging_inv[OF DynamicPaging_inv[OF assms(1)]] assms(3) by simp
  have qf: "queue_full s"
    using run_paging_clean[OF DynamicPaging_inv[OF assms(1)] DynamicPaging_queue_full[OF assms(1)] assms(2)]
      assms(3) by simp
  from fault_step[OF inv qf assms(4,5)] show ?thesis .
qed

text \<open>
  Two frames, three pages: with page 2 in frame 0, an access to page 0 at offset 9 takes the
  empty frame 1.
\<close>

theorem page_fault_handling_witness:
  "DynamicPaging 4 1 4 = Inr small_engine \<and> no_out_of_frames fill_calls small_engine \<and>
   page_table (run_paging fill_calls small_engine) 0 = Some (Page 0 False None False ''000'') \<and>
   free_allocated (run_paging fill_calls small_engine) = [1] \<and>
   fst (access_memory 0 9 ''load'' (run_paging fill_calls small_engine)) =
     Inr (Some 1033, True, NoInfo) \<and>
   frame_queue (snd (access_memory 0 9 ''load'' (run_paging fill_calls small_engine))) = [0, 1]"
proof -
  have c: "no_out_of_frames fill_calls small_engine" by code_simp
  have p: "page_table (run_paging fill_calls small_engine) 0 = Some (Page 0 False None False ''000'')"
    by code_simp
  have e: "\<not> exists (Page 0 False None False ''000'')" by (simp add: Page_def)
  have f: "free_allocated (run_paging fill_calls small_engine) = [1]" by code_simp
  have z: "page_size (run_paging fill_calls small_engine) = 1024"
          "frame_queue (run_paging fill_calls small_engine) = [0]" by code_simp+
  from page_fault_handling[OF small_engine_init c refl p e, of 9 "''load''"] f z
  have "access_memory 0 9 ''load'' (run_paging fill_calls small_engine) =
     (Inr (Some 1033, True, NoInfo),
      (run_paging fill_calls small_engine)\<lparr>
         frames := (frames (run_paging fill_calls small_engine))[1 := Some 0],
         frame_queue := [0, 1],
         page_table := (page_table (run_paging fill_calls small_engine))(0 \<mapsto>
            load_page (Page 0 False None False ''000'') 1 ''load'')\<rparr>)"
    by simp
  with small_engine_init c p f show ?thesis by simp
qed

lemma fresh_create_job:
  assumes init: "DynamicPaging m ps mj = Inr s0"
      and nc: "fst (create_job jid job_sz cnt disk s0) \<noteq> JobCreated"
  shows "snd (create_job jid job_sz cnt disk s0) = s0"
proof -
  obtain r s' where c: "create_job jid job_sz cnt disk s0 = (r, s')"
    by (cases "create_job jid job_sz cnt disk s0")
  from init have fr: "frames s0 = replicate (nat (total_frames s0)) None"
    by (auto simp: DynamicPaging_def split: if_splits)
  then have "length (free_frames_of (frames s0)) = length (frames s0)"
    by (intro free_frames_of_all) simp
  with fr have len: "int (length (free_frames_of (frames s0))) = int (nat (total_frames s0))"
    by simp
  from create_job_cases[OF c] nc c have "s' = s0"
  proof (elim disjE conjE)
    assume "cnt \<le> total_frames s0" "int (length (free_frames_of (frames s0))) < cnt"
    with len have False by simp
    then show ?thesis ..
  qed simp_all
  with c show ?thesis by simp
qed

lemma fresh_page_table: "DynamicPaging m ps mj = Inr s0 \<Longrightarrow> page_table s0 pno = None"
  by (auto simp: DynamicPaging_def split: if_splits)

lemma fresh_current_job: "DynamicPaging m ps mj = Inr s0 \<Longrightarrow> current_job s0 = None"
  by (auto simp: DynamicPaging_def split: if_splits)

lemma fresh_run:
  assumes init: "DynamicPaging m ps mj = Inr s0"
  shows "no_job_created calls s0 \<Longrightarrow> run_paging calls s0 = s0"
proof (induction calls)
  case Nil
  then show ?case by (simp add: run_paging_def)
next
  case (Cons c calls)
  have st: "paging_step s0 c = s0"
  proof (cases c)
    case (CreateJob jid job_sz cnt disk)
    with Cons.prems have "fst (create_job jid job_sz cnt disk s0) \<noteq> JobCreated" by simp
    from fresh_create_job[OF init this] CreateJob show ?thesis by simp
  next
    case (AccessMemory pno offset operation)
    with acc_out_of_range[OF fresh_page_table[OF init]] show ?thesis by simp
  qed
  with Cons.prems have "no_job_created calls s0" by simp
  from Cons.IH[OF this] st show ?case by (simp add: run_paging_def)
qed

text \<open>
  Claim C7, as stated, fails: on a fresh engine \<open>access_memory\<close> reports that the page number
  is out of range; the engine has no outcome for a missing job.
\<close>

theorem access_before_job_counterexample:
  "DynamicPaging 4 1 4 = Inr small_engine \<and>
   current_job small_engine = None \<and>
   fst (access_memory 0 0 ''load'' small_engine) = Inr (None, False, PageOutOfRange 0)"
proof -
  have "current_job small_engine = None"
       "fst (access_memory 0 0 ''load'' small_engine) = Inr (None, False, PageOutOfRange 0)"
    by code_simp+
  with small_engine_init show ?thesis by simp
qed

text \<open>
  Claim C7, amended. Before any \<open>create_job\<close> has succeeded, every call of \<open>access_memory\<close>
  returns no physical address and no page fault and leaves the engine unchanged; the
  failure it reports is the one for a page number outside the (still empty) page table.
  The refusal for a missing job is made by the caller, \<open>_execute_instruction\<close>, which does
  not call the engine then.
\<close>

theorem access_before_any_job:
  assumes "DynamicPaging m ps mj = Inr s0" and "no_job_created calls s0"
  shows "access_memory pno offset operation (run_paging calls s0) =
           (Inr (None, False, PageOutOfRange pno), run_paging calls s0) \<and>
         execute_instruction operation pno offset (run_paging calls s0) =
           (NoCurrentJob, run_paging calls s0)"
  using fresh_run[OF assms] acc_out_of_range[OF fresh_page_table[OF assms(1)], of pno offset operation]
    fresh_current_job[OF assms(1)]
  by (simp add: execute_instruction_def)

text \<open>
  Two refused jobs and an access on a fresh engine, then an access to page 3.
\<close>

theorem access_before_any_job_witness:
  "DynamicPaging 4 1 4 = Inr small_engine \<and> no_job_created failed_jobs small_engine \<and>
   fst (create_job ''A'' 5120 1 no_tags small_engine) = JobTooLarge \<and>
   fst (create_job ''B'' 1024 5 no_tags small_engine) = InsufficientFrames \<and>
   fst (access_memory 3 7 ''save'' (run_paging failed_jobs small_engine)) =
     Inr (None, False, PageOutOfRange 3) \<and>
   fst (execute_instruction ''save'' 3 7 (run_paging failed_jobs small_engine)) = NoCurrentJob"
proof -
  have n: "no_job_created failed_jobs small_engine" by code_simp
  have "fst (create_job ''A'' 5120 1 no_tags small_engine) = JobTooLarge"
       "fst (create_job ''B'' 1024 5 no_tags small_engine) = InsufficientFrames"
    by code_simp+
  with access_before_any_job[OF small_engine_init n, of 3 7 "''save''"] small_engine_init n
  show ?thesis by simp
qed

text \<open>
  Claim C1. A failing \<open>create_job\<close> is meant to leave the engine as it was. The checks of
  the job size and of the frame count are made before anything is assigned, but the check
  for enough empty frames comes after the page table has been rebuilt and the
  allocated-frame list emptied. On an engine of four frames that runs a job with one
  frame and one resident page, a request for four frames is refused: the page table is
  then the one of the refused job and the allocated-frame list is empty, while the job
  descriptor, the frame table and the FIFO queue are still those of the running job, and
  the next access replaces through that stale queue.
\<close>

theorem create_job_out_of_frames_changes_state:
  "DynamicPaging 4 1 4 = Inr small_engine \<and>
   fst refused_job = OutOfFrames \<and>
   allocated_frames one_frame_job = [0] \<and> allocated_frames (snd refused_job) = [] \<and>
   page_table one_frame_job 0 = Some (Page 0 True (Some 0) True ''000'') \<and>
   page_table (snd refused_job) 0 = Some (Page 0 False None False ''000'') \<and>
   page_table one_frame_job 1 = Some (Page 1 False None False ''000'') \<and>
   page_table (snd refused_job) 1 = None \<and>
   frames (snd refused_job) = [Some 0, None, None, None] \<and>
   frame_queue (snd refused_job) = [0] \<and>
   current_job (snd refused_job) = current_job one_frame_job \<and>
   fst (access_memory 0 0 ''load'' (snd refused_job)) = Inr (Some 0, True, Evicted 0)"
proof -
  have "fst refused_job = OutOfFrames"
       "allocated_frames (snd refused_job) = []"
       "page_table (snd refused_job) 0 = Some (Page 0 False None False ''000'')"
       "page_table (snd refused_job) 1 = None"
       "frames (snd refused_job) = [Some 0, None, None, None]"
       "frame_queue (snd refused_job) = [0]"
       "current_job (snd refused_job) = current_job one_frame_job"
       "fst (access_memory 0 0 ''load'' (snd refused_job)) = Inr (Some 0, True, Evicted 0)"
    by code_simp+
  with small_engine_init one_frame_job_state show ?thesis by simp
qed

end
